theory Spec2Isabelle
  imports Main "HOL-Library.Multiset"
begin

section \<open>Activity board: data model\<close>

text \<open>
  The model follows \<^verbatim>\<open>door.py\<close> and \<^verbatim>\<open>activity_board.py\<close>. Python integers are
  \<open>int\<close>; colours are the colour strings of the configuration; exceptions are values
  of type \<open>error\<close>. pygame itself (surfaces, the display, the mixer, the event queue)
  is outside the program: a rendered surface is described by the branch of
  \<^verbatim>\<open>Door.get_door_surface\<close> that drew it and the colours it used, and every call that
  draws, plays a sound or sleeps is recorded, in order, in the board's \<open>effects\<close>.
\<close>

type_synonym color = string

datatype error = RuntimeError string | IndexError | ZeroDivisionError | UnboundLocalError

datatype State = START | SELECTING | IN_PROGRESS | ALL_REVEALED | GAME_OVER

datatype Action = UP | DOWN | LEFT | RIGHT | OPEN | RETURN | REVEAL | RESTART | QUIT

text \<open>\<^verbatim>\<open>DoorProperties\<close>: the colours and sizes (the two font objects and the float
  \<^verbatim>\<open>open_step_time\<close> only reach pygame and \<^verbatim>\<open>time.sleep\<close>).\<close>

record DoorProperties =
  bg_color :: color
  door_color :: color
  ellipse_color :: color
  number_color :: color
  cross_color :: color
  selection_color :: color
  activity_color :: color
  unused_color :: color
  line_spacing :: int
  border_size :: int
  ellipse_margin :: int
  cross_width :: int
  cross_offset :: int

record Door =
  index :: int
  height :: int
  width :: int
  activity :: string
  props :: DoorProperties
  is_selected :: bool
  is_open :: bool
  is_revealed :: bool
  is_hidden :: bool
  is_updated :: bool
  pct_open :: int

text \<open>\<^verbatim>\<open>Door.__init__\<close> as \<^verbatim>\<open>_build_door_list\<close> calls it: \<^verbatim>\<open>is_selected\<close>,
  \<^verbatim>\<open>is_open\<close> and \<^verbatim>\<open>is_revealed\<close> take their default \<^verbatim>\<open>False\<close>; a new door is
  dirty and fully closed.\<close>

definition Door_init :: "int \<Rightarrow> int \<Rightarrow> int \<Rightarrow> string \<Rightarrow> DoorProperties \<Rightarrow> bool \<Rightarrow> Door" where
  "Door_init i h w a p hidden =
     \<lparr>index = i, height = h, width = w, activity = a, props = p,
      is_selected = False, is_open = False, is_revealed = False, is_hidden = hidden,
      is_updated = True, pct_open = 0\<rparr>"

text \<open>What \<^verbatim>\<open>get_door_surface\<close> draws. \<open>Door_Face\<close> carries the border fill, the
  number shown and, when the door is partly open, the percentage of the window with the
  colour and text of the activity seen through it.\<close>

datatype surface =
    Blank_Box color
  | Cross_Box color color
  | Revealed_Text color string
  | Door_Face color int "(int \<times> color \<times> string) option"

definition get_door_surface :: "Door \<Rightarrow> surface" where
  "get_door_surface d =
     (if is_hidden d then Blank_Box (bg_color (props d))
      else if is_open d \<and> \<not> is_revealed d then
        Cross_Box (if is_selected d then selection_color (props d) else bg_color (props d))
                  (cross_color (props d))
      else if is_revealed d then
        Revealed_Text (if is_open d then activity_color (props d) else unused_color (props d))
                      (activity d)
      else
        Door_Face (if is_selected d then selection_color (props d) else bg_color (props d))
                  (index d + 1)
                  (if pct_open d > 0
                   then Some (pct_open d, activity_color (props d), activity d)
                   else None))"

datatype cue = Start_Sound | Move_Sound | Open_Sound | Oops_Sound | Reveal_All_Sound

datatype effect =
    Blit int int surface
  | Display_Update
  | Play cue
  | Show_Activity string
  | Sleep_Intro
  | Sleep_Open
  | Event_Clear

text \<open>The board object together with the locals of \<^verbatim>\<open>run\<close> (\<open>selected_door\<close>,
  \<open>play_again\<close>, both unbound until assigned). \<open>selected_door\<close> is a reference to one
  of the \<^verbatim>\<open>Door\<close> objects of \<^verbatim>\<open>self._doors\<close>: it is modelled by that object's
  position in the list.\<close>

record board =
  surface_width :: int
  surface_height :: int
  surface_is_display :: bool
  doors_horiz :: int
  doors_vert :: int
  start_hidden :: bool
  doors :: "Door list"
  state :: State
  selected_door :: "nat option"
  play_again :: "bool option"
  effects :: "effect list"

definition num_doors :: "board \<Rightarrow> int" where
  "num_doors b = doors_horiz b * doors_vert b"

definition door_width :: "board \<Rightarrow> int" where
  "door_width b = surface_width b div doors_horiz b"

definition door_height :: "board \<Rightarrow> int" where
  "door_height b = surface_height b div doors_vert b"

definition door_x_coord :: "board \<Rightarrow> int \<Rightarrow> int" where
  "door_x_coord b i = (i mod doors_horiz b) * door_width b"

definition door_y_coord :: "board \<Rightarrow> int \<Rightarrow> int" where
  "door_y_coord b i = (i div doors_horiz b) * door_height b"

section \<open>Selection arithmetic\<close>

text \<open>\<^verbatim>\<open>_get_new_selection\<close>: the four \<^verbatim>\<open>if\<close> statements after the \<^verbatim>\<open>elif\<close> chain
  run in sequence, each on the value the previous one left.\<close>

definition get_new_selection :: "board \<Rightarrow> Door \<Rightarrow> Action \<Rightarrow> int" where
  "get_new_selection b door action =
     (let old_index = index door;
          old_index_h = old_index mod doors_horiz b;
          old_index_v = old_index div doors_horiz b;
          (new_index_h, new_index_v) =
            (if action = UP then (old_index_h, old_index_v - 1)
             else if action = DOWN then (old_index_h, old_index_v + 1)
             else if action = LEFT then (old_index_h - 1, old_index_v)
             else if action = RIGHT then (old_index_h + 1, old_index_v)
             else (old_index_h, old_index_v));
          new_index_h = (if new_index_h < 0 then old_index_h else new_index_h);
          new_index_h = (if new_index_h > doors_horiz b - 1 then old_index_h else new_index_h);
          new_index_v = (if new_index_v < 0 then 0 else new_index_v);
          new_index_v = (if new_index_v > doors_vert b - 1 then old_index_v else new_index_v)
      in new_index_v * doors_horiz b + new_index_h)"

definition directional :: "Action \<Rightarrow> bool" where
  "directional a = (a = UP \<or> a = DOWN \<or> a = LEFT \<or> a = RIGHT)"

text \<open>The selected door lies on the edge of the grid in the direction of the move.\<close>

definition on_boundary :: "board \<Rightarrow> int \<Rightarrow> Action \<Rightarrow> bool" where
  "on_boundary b i a =
     (a = UP \<and> i div doors_horiz b = 0 \<or>
      a = DOWN \<and> i div doors_horiz b = doors_vert b - 1 \<or>
      a = LEFT \<and> i mod doors_horiz b = 0 \<or>
      a = RIGHT \<and> i mod doors_horiz b = doors_horiz b - 1)"

definition row_delta :: "Action \<Rightarrow> int" where
  "row_delta a = (if a = UP then - 1 else if a = DOWN then 1 else 0)"

definition col_delta :: "Action \<Rightarrow> int" where
  "col_delta a = (if a = LEFT then - 1 else if a = RIGHT then 1 else 0)"


section \<open>Python library functions used by the board\<close>

text \<open>\<^verbatim>\<open>range(start, stop, step)\<close> for a positive step.\<close>

definition py_range :: "int \<Rightarrow> int \<Rightarrow> int \<Rightarrow> int list" where
  "py_range start stop step =
     map (\<lambda>k. start + int k * step) [0..<nat ((stop - start + step - 1) div step)]"

text \<open>The position read by \<^verbatim>\<open>xs[i]\<close>: a negative index counts from the end, an index
  outside the list raises.\<close>

definition py_index :: "'a list \<Rightarrow> int \<Rightarrow> error + nat" where
  "py_index xs i =
     (let n = int (length xs)
      in if 0 \<le> i \<and> i < n then Inr (nat i)
         else if - n \<le> i \<and> i < 0 then Inr (nat (n + i))
         else Inl IndexError)"

text \<open>\<^verbatim>\<open>random.choice(xs)\<close> on a non-empty list, \<open>r\<close> being the number the generator
  draws; every element of the list is the choice for some \<open>r\<close>. The generator is a
  function from the count of the draw to the number drawn.\<close>

definition random_choice :: "'a list \<Rightarrow> nat \<Rightarrow> 'a" where
  "random_choice xs r = xs ! (r mod length xs)"

section \<open>Drawing\<close>

definition draw_door :: "board \<Rightarrow> Door \<Rightarrow> bool \<Rightarrow> effect list" where
  "draw_door b door update_display =
     Blit (door_x_coord b (index door)) (door_y_coord b (index door)) (get_door_surface door)
     # (if update_display \<and> surface_is_display b then [Display_Update] else [])"

definition display_update :: "board \<Rightarrow> effect list" where
  "display_update b = (if surface_is_display b then [Display_Update] else [])"

text \<open>\<^verbatim>\<open>_draw_updated_doors\<close>: the loop visits the doors in list order, draws a dirty
  door and clears its flag.\<close>

definition draw_updated_doors :: "board \<Rightarrow> board" where
  "draw_updated_doors b =
     b\<lparr>doors := map (\<lambda>d. if is_updated d then d\<lparr>is_updated := False\<rparr> else d) (doors b),
       effects := effects b
         @ concat (map (\<lambda>d. if is_updated d then draw_door b d False else []) (doors b))
         @ display_update b\<rparr>"

definition draw_all_doors :: "board \<Rightarrow> board" where
  "draw_all_doors b =
     b\<lparr>doors := map (\<lambda>d. d\<lparr>is_updated := False\<rparr>) (doors b),
       effects := effects b
         @ concat (map (\<lambda>d. draw_door b d False) (doors b))
         @ display_update b\<rparr>"

definition show_activity :: "board \<Rightarrow> Door \<Rightarrow> board" where
  "show_activity b door =
     b\<lparr>effects := effects b @ [Show_Activity (activity door)] @ display_update b\<rparr>"

definition play_random_sound :: "cue \<Rightarrow> board \<Rightarrow> board" where
  "play_random_sound c b = b\<lparr>effects := effects b @ [Play c]\<rparr>"

definition event_clear :: "board \<Rightarrow> board" where
  "event_clear b = b\<lparr>effects := effects b @ [Event_Clear]\<rparr>"

text \<open>The surfaces blitted by a sequence of effects, in order.\<close>

definition blitted :: "effect list \<Rightarrow> surface list" where
  "blitted es = concat (map (\<lambda>e. case e of Blit x y s \<Rightarrow> [s] | _ \<Rightarrow> []) es)"

section \<open>Animations\<close>

text \<open>One pass of the loop of \<^verbatim>\<open>_animate_open\<close> on the door at position \<open>k\<close>.\<close>

definition animate_open_step :: "nat \<Rightarrow> board \<Rightarrow> int \<Rightarrow> board" where
  "animate_open_step k b i =
     (let door = (doors b ! k)\<lparr>pct_open := i\<rparr>
      in b\<lparr>doors := (doors b)[k := door],
           effects := effects b @ draw_door b door True @ [Sleep_Open]\<rparr>)"

definition animate_open :: "board \<Rightarrow> nat \<Rightarrow> board" where
  "animate_open b k = foldl (animate_open_step k) b (py_range 2 102 2)"

definition animate_open_all_step :: "board \<Rightarrow> int \<Rightarrow> board" where
  "animate_open_all_step b i =
     draw_updated_doors
       (b\<lparr>doors := map (\<lambda>d. if \<not> is_open d then d\<lparr>pct_open := i, is_updated := True\<rparr> else d)
                       (doors b)\<rparr>)"

definition animate_open_all :: "board \<Rightarrow> board" where
  "animate_open_all b =
     (let b1 = draw_updated_doors
                 (b\<lparr>doors := map (\<lambda>d. if is_open d
                                        then d\<lparr>is_revealed := True, is_updated := True\<rparr> else d)
                                 (doors b)\<rparr>);
          b2 = foldl animate_open_all_step b1 (py_range 5 105 5)
      in draw_updated_doors
           (b2\<lparr>doors := map (\<lambda>d. d\<lparr>is_revealed := True, is_updated := True\<rparr>) (doors b2)\<rparr>))"

text \<open>The \<^verbatim>\<open>while intro_show_list\<close> loop of \<^verbatim>\<open>_animate_intro\<close>; \<open>k\<close> counts the
  draws taken from the generator.\<close>

function animate_intro_loop :: "(nat \<Rightarrow> nat) \<Rightarrow> nat \<Rightarrow> int list \<Rightarrow> board \<Rightarrow> error + board" where
  "animate_intro_loop rand k intro_show_list b =
     (if intro_show_list = [] then Inr b
      else
        let intro_show_index = random_choice intro_show_list (rand k)
        in case py_index (doors b) intro_show_index of
             Inl e \<Rightarrow> Inl e
           | Inr j \<Rightarrow>
               let b1 = draw_updated_doors
                          (b\<lparr>doors := (doors b)[j := (doors b ! j)\<lparr>is_hidden := False,
                                                                  is_updated := True\<rparr>]\<rparr>)
               in animate_intro_loop rand (Suc k) (remove1 intro_show_index intro_show_list)
                    (b1\<lparr>effects := effects b1 @ [Sleep_Intro]\<rparr>))"
  by pat_completeness auto
termination
proof (relation "measure (\<lambda>(rand, k, intro_show_list, b). length intro_show_list)")
  show "wf (measure (\<lambda>(rand, k, intro_show_list, b). length intro_show_list))" by simp
next
  fix rand :: "nat \<Rightarrow> nat" and k :: nat and intro_show_list :: "int list" and b :: board
    and x :: int and y :: nat and xa :: board
  assume ne: "intro_show_list \<noteq> []" and x: "x = random_choice intro_show_list (rand k)"
  from ne have "x \<in> set intro_show_list"
    unfolding x random_choice_def by (intro nth_mem) simp
  moreover from ne have "0 < length intro_show_list" by simp
  ultimately have "length (remove1 x intro_show_list) < length intro_show_list"
    by (simp add: length_remove1)
  then show "((rand, Suc k, remove1 x intro_show_list, xa\<lparr>effects := effects xa @ [Sleep_Intro]\<rparr>),
              (rand, k, intro_show_list, b))
             \<in> measure (\<lambda>(rand, k, intro_show_list, b). length intro_show_list)"
    by simp
qed

definition animate_intro :: "(nat \<Rightarrow> nat) \<Rightarrow> board \<Rightarrow> error + board" where
  "animate_intro rand b =
     animate_intro_loop rand 0 (py_range 0 (num_doors b) 1) (draw_all_doors b)"


section \<open>Construction\<close>

text \<open>The loop of \<^verbatim>\<open>_build_door_list\<close> over \<^verbatim>\<open>range(self.num_doors)\<close>:
  \<^verbatim>\<open>random.choice\<close> raises \<^verbatim>\<open>IndexError\<close> on an empty list, \<^verbatim>\<open>list.remove\<close>
  deletes the first occurrence of the chosen activity.\<close>

fun build_door_loop ::
  "board \<Rightarrow> DoorProperties \<Rightarrow> (nat \<Rightarrow> nat) \<Rightarrow> bool \<Rightarrow> int list \<Rightarrow> string list \<Rightarrow> error + Door list"
where
  "build_door_loop b p rand doors_hidden [] activities = Inr []"
| "build_door_loop b p rand doors_hidden (i # is) activities =
     (if activities = [] then Inl IndexError
      else
        let activity = random_choice activities (rand (nat i))
        in case build_door_loop b p rand doors_hidden is (remove1 activity activities) of
             Inl e \<Rightarrow> Inl e
           | Inr ds \<Rightarrow>
               Inr (Door_init i (door_height b) (door_width b) activity p doors_hidden # ds))"

definition build_door_list ::
  "board \<Rightarrow> DoorProperties \<Rightarrow> (nat \<Rightarrow> nat) \<Rightarrow> string list \<Rightarrow> bool \<Rightarrow> error + Door list"
where
  "build_door_list b p rand activities doors_hidden =
     build_door_loop b p rand doors_hidden (py_range 0 (num_doors b) 1) activities"

text \<open>\<^verbatim>\<open>ActivityBoard.__init__\<close>. The surface is given by its width \<open>w\<close> and height
  \<open>h\<close>, the configuration by \<^verbatim>\<open>doors_horiz\<close>, \<^verbatim>\<open>doors_vert\<close> and the door
  properties, the activity file by the list of its stripped lines. The modulo by a zero
  grid dimension raises \<^verbatim>\<open>ZeroDivisionError\<close>. The run-time fields start unset.\<close>

definition ActivityBoard_init ::
  "int \<Rightarrow> int \<Rightarrow> int \<Rightarrow> int \<Rightarrow> DoorProperties \<Rightarrow> string list \<Rightarrow> (nat \<Rightarrow> nat) \<Rightarrow> bool \<Rightarrow> bool
     \<Rightarrow> error + board"
where
  "ActivityBoard_init w h dh dv p activities rand hidden is_display =
     (if dh = 0 then Inl ZeroDivisionError
      else if w mod dh \<noteq> 0 then
        Inl (RuntimeError ''surface width must be an integer multiple of doors_horiz'')
      else if dv = 0 then Inl ZeroDivisionError
      else if h mod dv \<noteq> 0 then
        Inl (RuntimeError ''surface height must be an integer multiple of doors_vert'')
      else
        let b = \<lparr>surface_width = w, surface_height = h, surface_is_display = is_display,
                 doors_horiz = dh, doors_vert = dv, start_hidden = hidden, doors = [],
                 state = START, selected_door = None, play_again = None, effects = []\<rparr>
        in case build_door_list b p rand activities hidden of
             Inl e \<Rightarrow> Inl e
           | Inr ds \<Rightarrow> Inr (b\<lparr>doors := ds\<rparr>))"

section \<open>The run loop\<close>

text \<open>The \<^verbatim>\<open>START\<close> branch. \<^verbatim>\<open>self._doors[0]\<close> raises on an empty door list.\<close>

definition START_branch :: "(nat \<Rightarrow> nat) \<Rightarrow> board \<Rightarrow> error + board" where
  "START_branch rand b =
     (let b1 = play_random_sound Start_Sound b
      in case (if start_hidden b1 then animate_intro rand b1 else Inr (draw_all_doors b1)) of
           Inl e \<Rightarrow> Inl e
         | Inr b2 \<Rightarrow>
             (case doors b2 of
                [] \<Rightarrow> Inl IndexError
              | d0 # ds \<Rightarrow>
                  let b3 = b2\<lparr>doors := d0\<lparr>is_selected := True, is_updated := True\<rparr> # ds,
                             selected_door := Some 0\<rparr>;
                      b4 = draw_updated_doors b3
                  in Inr (event_clear (b4\<lparr>state := SELECTING\<rparr>))))"

text \<open>The body of the \<^verbatim>\<open>for event in pygame.event.get()\<close> loop of the \<^verbatim>\<open>SELECTING\<close>
  branch, for one event already translated by \<^verbatim>\<open>_translate_action\<close> (\<open>None\<close> when
  the event is no action).\<close>

definition SELECTING_event :: "board \<Rightarrow> Action option \<Rightarrow> error + board" where
  "SELECTING_event b action =
     (if action = Some OPEN then
        (case selected_door b of
           None \<Rightarrow> Inl UnboundLocalError
         | Some k \<Rightarrow>
             if \<not> is_open (doors b ! k) then
               let b1 = play_random_sound Open_Sound b;
                   b2 = animate_open b1 k;
                   b3 = show_activity b2 (doors b2 ! k);
                   b4 = b3\<lparr>doors := (doors b3)[k := (doors b3 ! k)\<lparr>is_open := True\<rparr>]\<rparr>
               in Inr (event_clear (b4\<lparr>state := IN_PROGRESS\<rparr>))
             else Inr (event_clear (play_random_sound Oops_Sound b)))
      else if action = Some RESTART then
        Inr (event_clear (b\<lparr>play_again := Some True, state := GAME_OVER\<rparr>))
      else if action = Some QUIT then
        Inr (event_clear (b\<lparr>play_again := Some False, state := GAME_OVER\<rparr>))
      else if action = Some REVEAL then
        Inr (event_clear ((animate_open_all (play_random_sound Reveal_All_Sound b))
                            \<lparr>state := ALL_REVEALED\<rparr>))
      else if action \<in> {Some UP, Some DOWN, Some LEFT, Some RIGHT} then
        (case selected_door b of
           None \<Rightarrow> Inl UnboundLocalError
         | Some k \<Rightarrow>
             let new_index = get_new_selection b (doors b ! k) (the action)
             in if new_index \<noteq> index (doors b ! k) then
                  let ds1 = (doors b)[k := (doors b ! k)\<lparr>is_selected := False,
                                                        is_updated := True\<rparr>]
                  in case py_index ds1 new_index of
                       Inl e \<Rightarrow> Inl e
                     | Inr j \<Rightarrow>
                         let ds2 = ds1[j := (ds1 ! j)\<lparr>is_selected := True, is_updated := True\<rparr>];
                             b1 = b\<lparr>doors := ds2, selected_door := Some j\<rparr>
                         in Inr (event_clear (draw_updated_doors
                                                (play_random_sound Move_Sound b1)))
                else Inr (event_clear b))
      else Inr b)"

definition IN_PROGRESS_event :: "board \<Rightarrow> Action option \<Rightarrow> error + board" where
  "IN_PROGRESS_event b action =
     (if action = Some RETURN then Inr (event_clear ((draw_all_doors b)\<lparr>state := SELECTING\<rparr>))
      else Inr b)"

definition ALL_REVEALED_event :: "board \<Rightarrow> Action option \<Rightarrow> error + board" where
  "ALL_REVEALED_event b action =
     (if action = Some RESTART then
        Inr (event_clear (b\<lparr>play_again := Some True, state := GAME_OVER\<rparr>))
      else if action = Some QUIT then
        Inr (event_clear (b\<lparr>play_again := Some False, state := GAME_OVER\<rparr>))
      else Inr b)"

text \<open>A \<^verbatim>\<open>for\<close> loop over the list that \<^verbatim>\<open>pygame.event.get()\<close> returned: every event
  of the list is handled by the body of the branch the iteration entered, whatever the
  earlier events of the list did to \<^verbatim>\<open>self._state\<close>; an exception ends the loop.\<close>

fun for_events ::
  "(board \<Rightarrow> Action option \<Rightarrow> error + board) \<Rightarrow> board \<Rightarrow> Action option list \<Rightarrow> error + board"
where
  "for_events body b [] = Inr b"
| "for_events body b (a # as) =
     (case body b a of Inl e \<Rightarrow> Inl e | Inr b' \<Rightarrow> for_events body b' as)"

text \<open>One pass of the \<^verbatim>\<open>while\<close> body in a state other than \<^verbatim>\<open>START\<close>, on the list
  of events \<^verbatim>\<open>pygame.event.get()\<close> returns in this pass.\<close>

definition run_events :: "board \<Rightarrow> Action option list \<Rightarrow> error + board" where
  "run_events b events =
     (case state b of
        SELECTING \<Rightarrow> for_events SELECTING_event b events
      | IN_PROGRESS \<Rightarrow> for_events IN_PROGRESS_event b events
      | ALL_REVEALED \<Rightarrow> for_events ALL_REVEALED_event b events
      | _ \<Rightarrow> Inr b)"

datatype run_result = Returned bool | Raised error | Running board

text \<open>The \<^verbatim>\<open>while\<close> loop of \<^verbatim>\<open>run\<close>. The input is the list of the event lists that
  the successive calls of \<^verbatim>\<open>pygame.event.get()\<close> return; once it is used up the queue
  stays empty. The loop runs for as long as the player does not end the game, so the
  model counts its passes: \<open>Running b\<close> is the board at the head of the loop when the
  count is reached.\<close>

fun run_loop :: "nat \<Rightarrow> (nat \<Rightarrow> nat) \<Rightarrow> Action option list list \<Rightarrow> board \<Rightarrow> run_result" where
  "run_loop 0 rand queue b = Running b"
| "run_loop (Suc n) rand queue b =
     (if state b = GAME_OVER then
        (case play_again b of None \<Rightarrow> Raised UnboundLocalError | Some p \<Rightarrow> Returned p)
      else if state b = START then
        (case START_branch rand b of
           Inl e \<Rightarrow> Raised e
         | Inr b' \<Rightarrow> run_loop n rand queue b')
      else
        (case run_events b (case queue of [] \<Rightarrow> [] | events # _ \<Rightarrow> events) of
           Inl e \<Rightarrow> Raised e
         | Inr b' \<Rightarrow> run_loop n rand (tl queue) b'))"

definition run :: "nat \<Rightarrow> (nat \<Rightarrow> nat) \<Rightarrow> Action option list list \<Rightarrow> board \<Rightarrow> run_result" where
  "run n rand queue b =
     run_loop n rand queue (b\<lparr>state := START, selected_door := None, play_again := None\<rparr>)"


section \<open>Invariants of the run loop\<close>

text \<open>What drawing and animating leave alone in a door: its index, activity and
  properties, whether it is selected and whether it has been opened; a visible door
  stays visible.\<close>

definition kept :: "Door \<Rightarrow> Door \<Rightarrow> bool" where
  "kept d d' \<longleftrightarrow>
     index d' = index d \<and> activity d' = activity d \<and> props d' = props d \<and>
     is_selected d' = is_selected d \<and> is_open d' = is_open d \<and>
     (is_hidden d' \<longrightarrow> is_hidden d)"

definition redrawn :: "board \<Rightarrow> board \<Rightarrow> bool" where
  "redrawn b b' \<longleftrightarrow>
     surface_width b' = surface_width b \<and> surface_height b' = surface_height b \<and>
     surface_is_display b' = surface_is_display b \<and>
     doors_horiz b' = doors_horiz b \<and> doors_vert b' = doors_vert b \<and>
     start_hidden b' = start_hidden b \<and> state b' = state b \<and>
     selected_door b' = selected_door b \<and> play_again b' = play_again b \<and>
     list_all2 kept (doors b) (doors b')"

text \<open>The door list fills the grid, each door at the position of its index.\<close>

definition grid_doors :: "board \<Rightarrow> bool" where
  "grid_doors b \<longleftrightarrow>
     length (doors b) = nat (num_doors b) \<and>
     (\<forall>i < length (doors b). index (doors b ! i) = int i)"

text \<open>The door at position \<open>k\<close> is the one selected door.\<close>

definition cursor_at :: "Door list \<Rightarrow> nat \<Rightarrow> bool" where
  "cursor_at ds k \<longleftrightarrow> k < length ds \<and> (\<forall>i < length ds. is_selected (ds ! i) = (i = k))"

text \<open>The invariant of the \<^verbatim>\<open>while\<close> loop of \<^verbatim>\<open>run\<close>: before the \<^verbatim>\<open>START\<close> branch
  no door is selected, and none is hidden unless the board starts hidden; after it \<open>selected_door\<close> is the one selected door, every door
  is visible, and \<open>play_again\<close> is bound once the state is \<^verbatim>\<open>GAME_OVER\<close>.\<close>

definition board_inv :: "board \<Rightarrow> bool" where
  "board_inv b \<longleftrightarrow>
     grid_doors b \<and>
     (if state b = START then
        (\<forall>d \<in> set (doors b). \<not> is_selected d) \<and>
        (start_hidden b \<or> (\<forall>d \<in> set (doors b). \<not> is_hidden d))
      else (\<exists>k. selected_door b = Some k \<and> cursor_at (doors b) k) \<and>
           (\<forall>d \<in> set (doors b). \<not> is_hidden d)) \<and>
     (state b = GAME_OVER \<longrightarrow> play_again b \<noteq> None)"

section \<open>Sample inputs\<close>

text \<open>A 600 by 400 surface with a grid of three by two doors, and the values used to
  run the definitions on concrete inputs.\<close>

definition sample_props :: DoorProperties where
  "sample_props =
     \<lparr>bg_color = ''black'', door_color = ''brown'', ellipse_color = ''white'',
      number_color = ''blue'', cross_color = ''red'', selection_color = ''yellow'',
      activity_color = ''green'', unused_color = ''gray'', line_spacing = 2,
      border_size = 4, ellipse_margin = 6, cross_width = 3, cross_offset = 5\<rparr>"

definition sample_activities :: "string list" where
  "sample_activities = [''a'', ''b'', ''c'', ''d'', ''e'', ''f'']"

definition first_choice :: "nat \<Rightarrow> nat" where
  "first_choice k = 0"

definition sample_grid :: board where
  "sample_grid =
     \<lparr>surface_width = 600, surface_height = 400, surface_is_display = True,
      doors_horiz = 3, doors_vert = 2, start_hidden = False, doors = [],
      state = START, selected_door = None, play_again = None, effects = []\<rparr>"

definition sample_door :: "int \<Rightarrow> Door" where
  "sample_door i = Door_init i 200 200 (sample_activities ! nat i) sample_props False"

definition sample_board :: board where
  "sample_board = sample_grid\<lparr>doors := map sample_door [0, 1, 2, 3, 4, 5]\<rparr>"






section \<open>Properties of the selection arithmetic\<close>

lemma div_lt_rows:
  fixes i dh dv :: int
  assumes "1 \<le> dh" "i < dh * dv"
  shows "i div dh < dv"
proof (rule ccontr)
  assume "\<not> i div dh < dv"
  then have "dv \<le> i div dh" by simp
  with assms(1) have "dh * dv \<le> dh * (i div dh)" by (simp add: mult_left_mono)
  moreover have "dh * (i div dh) + i mod dh = i" by simp
  moreover have "0 \<le> i mod dh" using assms(1) by simp
  ultimately show False using assms(2) by linarith
qed

text \<open>A door index of the grid splits into a row and a column, and back.\<close>

lemma cell_of_index:
  fixes i dh dv :: int
  assumes "1 \<le> dh" "0 \<le> i" "i < dh * dv"
  obtains r c where "i div dh = r" "i mod dh = c" "i = r * dh + c"
    "0 \<le> c" "c < dh" "0 \<le> r" "r < dv"
proof
  show "i div dh = i div dh" "i mod dh = i mod dh" by simp_all
  show "i = i div dh * dh + i mod dh" by simp
  from assms show "0 \<le> i mod dh" "i mod dh < dh" by simp_all
  from assms show "0 \<le> i div dh" by (simp add: pos_imp_zdiv_nonneg_iff)
  from assms show "i div dh < dv" by (simp add: div_lt_rows)
qed

lemma index_of_cell:
  fixes r c dh dv :: int
  assumes "0 \<le> r" "r < dv" "0 \<le> c" "c < dh"
  shows "0 \<le> r * dh + c" "r * dh + c < dh * dv"
    "(r * dh + c) div dh = r" "(r * dh + c) mod dh = c"
proof -
  from assms show "0 \<le> r * dh + c" by simp
  from assms have "r + 1 \<le> dv" "0 \<le> dh" by simp_all
  then have "(r + 1) * dh \<le> dv * dh" by (rule mult_right_mono)
  with assms show "r * dh + c < dh * dv" by (simp add: algebra_simps)
  from assms show "(r * dh + c) div dh = r" "(r * dh + c) mod dh = c" by simp_all
qed

lemma get_new_selection_cases:
  assumes "1 \<le> doors_horiz b" "0 \<le> index d" "index d < doors_horiz b * doors_vert b"
  shows "get_new_selection b d a =
    (let r = index d div doors_horiz b; c = index d mod doors_horiz b in
     if a = UP then (if r = 0 then index d else (r - 1) * doors_horiz b + c)
     else if a = DOWN then (if r = doors_vert b - 1 then index d else (r + 1) * doors_horiz b + c)
     else if a = LEFT then (if c = 0 then index d else r * doors_horiz b + (c - 1))
     else if a = RIGHT then (if c = doors_horiz b - 1 then index d else r * doors_horiz b + (c + 1))
     else index d)"
proof -
  from assms obtain r c where rc: "index d div doors_horiz b = r" "index d mod doors_horiz b = c"
    "index d = r * doors_horiz b + c" "0 \<le> c" "c < doors_horiz b" "0 \<le> r" "r < doors_vert b"
    by (rule cell_of_index)
  show ?thesis
    unfolding get_new_selection_def Let_def rc(1,2) using rc(3-7)
    by auto
qed

text \<open>With two negative grid dimensions every move is reverted.\<close>

lemma get_new_selection_negative:
  assumes "doors_horiz b < 0" "0 \<le> index d" "index d < doors_horiz b * doors_vert b"
  shows "get_new_selection b d a = index d"
proof -
  define r c where "r = index d div doors_horiz b" and "c = index d mod doors_horiz b"
  have i: "index d = r * doors_horiz b + c" by (simp add: r_def c_def)
  have c: "c \<le> 0" "doors_horiz b < c" using assms(1) by (simp_all add: c_def)
  have r: "r \<le> 0" using assms(1,2) unfolding r_def
    by (simp add: div_nonneg_neg_le0)
  have dv: "doors_vert b < 0"
  proof (rule ccontr)
    assume "\<not> doors_vert b < 0"
    then have "doors_horiz b * doors_vert b \<le> 0" using assms(1)
      by (simp add: mult_le_0_iff)
    with assms(2,3) show False by simp
  qed
  show ?thesis
    unfolding get_new_selection_def Let_def r_def[symmetric] c_def[symmetric]
    using i c r dv assms(1) by auto
qed

lemma get_new_selection_range:
  assumes "0 \<le> index d" "index d < num_doors b"
  shows "0 \<le> get_new_selection b d a \<and> get_new_selection b d a < num_doors b"
proof -
  have lt: "index d < doors_horiz b * doors_vert b" using assms by (simp add: num_doors_def)
  consider "doors_horiz b < 0" | "doors_horiz b = 0" | "1 \<le> doors_horiz b" by linarith
  then show ?thesis
  proof cases
    case 1
    then show ?thesis using assms lt by (simp add: get_new_selection_negative)
  next
    case 2
    then show ?thesis using assms lt by simp
  next
    case 3
    from 3 assms(1) lt obtain r c where rc: "index d div doors_horiz b = r"
      "index d mod doors_horiz b = c" "index d = r * doors_horiz b + c"
      "0 \<le> c" "c < doors_horiz b" "0 \<le> r" "r < doors_vert b"
      by (rule cell_of_index)
    have cell: "0 \<le> r' * doors_horiz b + c' \<and> r' * doors_horiz b + c' < num_doors b"
      if "0 \<le> r'" "r' < doors_vert b" "0 \<le> c'" "c' < doors_horiz b" for r' c'
      using index_of_cell(1,2)[OF that] by (simp add: num_doors_def)
    have idx: "0 \<le> index d \<and> index d < num_doors b" using assms by simp
    have up: "0 \<le> (r - 1) * doors_horiz b + c \<and> (r - 1) * doors_horiz b + c < num_doors b"
      if "r \<noteq> 0" using cell[of "r - 1" c] rc(4-7) that by simp
    have down: "0 \<le> (r + 1) * doors_horiz b + c \<and> (r + 1) * doors_horiz b + c < num_doors b"
      if "r \<noteq> doors_vert b - 1" using cell[of "r + 1" c] rc(4-7) that by simp
    have left: "0 \<le> r * doors_horiz b + (c - 1) \<and> r * doors_horiz b + (c - 1) < num_doors b"
      if "c \<noteq> 0" using cell[of r "c - 1"] rc(4-7) that by simp
    have right: "0 \<le> r * doors_horiz b + (c + 1) \<and> r * doors_horiz b + (c + 1) < num_doors b"
      if "c \<noteq> doors_horiz b - 1" using cell[of r "c + 1"] rc(4-7) that by simp
    show ?thesis
      unfolding get_new_selection_cases[OF 3 assms(1) lt] Let_def rc(1,2)
      using idx up down left right by presburger
  qed
qed



text \<open>
  C1. On a grid of at least one row and one column, for a door index of the grid and a
  directional action: when the door lies on the edge of the grid in the direction of the
  move, \<^verbatim>\<open>_get_new_selection\<close> returns the index unchanged; otherwise it returns
  \<open>row * doors_horiz + col\<close> where the row (for Up and Down) or the column (for Left
  and Right) has moved by exactly one and the other coordinate is the old one.
\<close>

theorem get_new_selection_clamps_or_moves:
  assumes "1 \<le> doors_horiz b" and "1 \<le> doors_vert b"
    and "0 \<le> index d" and "index d < num_doors b" and "directional a"
  shows "(on_boundary b (index d) a \<longrightarrow> get_new_selection b d a = index d) \<and>
         (\<not> on_boundary b (index d) a \<longrightarrow>
            get_new_selection b d a =
              (index d div doors_horiz b + row_delta a) * doors_horiz b
                + (index d mod doors_horiz b + col_delta a) \<and>
            get_new_selection b d a div doors_horiz b = index d div doors_horiz b + row_delta a \<and>
            get_new_selection b d a mod doors_horiz b = index d mod doors_horiz b + col_delta a)"
proof -
  have lt: "index d < doors_horiz b * doors_vert b" using assms(4) by (simp add: num_doors_def)
  from assms(1,3) lt obtain r c where rc: "index d div doors_horiz b = r"
    "index d mod doors_horiz b = c" "index d = r * doors_horiz b + c"
    "0 \<le> c" "c < doors_horiz b" "0 \<le> r" "r < doors_vert b"
    by (rule cell_of_index)
  have g: "get_new_selection b d a =
    (if a = UP then (if r = 0 then index d else (r - 1) * doors_horiz b + c)
     else if a = DOWN then (if r = doors_vert b - 1 then index d else (r + 1) * doors_horiz b + c)
     else if a = LEFT then (if c = 0 then index d else r * doors_horiz b + (c - 1))
     else if a = RIGHT then (if c = doors_horiz b - 1 then index d else r * doors_horiz b + (c + 1))
     else index d)"
    unfolding get_new_selection_cases[OF assms(1,3) lt] Let_def rc(1,2) ..
  have cellc: "(r' * doors_horiz b + c') div doors_horiz b = r' \<and>
               (r' * doors_horiz b + c') mod doors_horiz b = c'"
    if "0 \<le> c'" "c' < doors_horiz b" for r' c'
    using that by simp
  from assms(5) consider "a = UP" | "a = DOWN" | "a = LEFT" | "a = RIGHT"
    by (auto simp: directional_def)
  then show ?thesis
  proof cases
    case 1
    show ?thesis
      unfolding g using 1 cellc[of c "r - 1"] rc(4,5)
      by (simp add: on_boundary_def row_delta_def col_delta_def rc(1,2))
  next
    case 2
    show ?thesis
      unfolding g using 2 cellc[of c "r + 1"] rc(4,5)
      by (simp add: on_boundary_def row_delta_def col_delta_def rc(1,2))
  next
    case 3
    show ?thesis
      unfolding g using 3 cellc[of "c - 1" r] rc(4,5)
      by (simp add: on_boundary_def row_delta_def col_delta_def rc(1,2))
  next
    case 4
    show ?thesis
      unfolding g using 4 cellc[of "c + 1" r] rc(4,5)
      by (simp add: on_boundary_def row_delta_def col_delta_def rc(1,2))
  qed
qed


theorem get_new_selection_clamps_or_moves_witness:
  "1 \<le> doors_horiz sample_grid \<and> 1 \<le> doors_vert sample_grid \<and>
   0 \<le> index (sample_door 4) \<and> index (sample_door 4) < num_doors sample_grid \<and>
   directional UP \<and> directional LEFT \<and>
   \<not> on_boundary sample_grid (index (sample_door 4)) UP \<and>
   get_new_selection sample_grid (sample_door 4) UP = 1 \<and>
   on_boundary sample_grid (index (sample_door 3)) LEFT \<and>
   get_new_selection sample_grid (sample_door 3) LEFT = 3"
proof -
  have h: "1 \<le> doors_horiz sample_grid" "1 \<le> doors_vert sample_grid"
    "0 \<le> index (sample_door 4)" "index (sample_door 4) < num_doors sample_grid"
    "0 \<le> index (sample_door 3)" "index (sample_door 3) < num_doors sample_grid"
    "directional UP" "directional LEFT"
    by (simp_all add: sample_grid_def sample_door_def Door_init_def num_doors_def directional_def)
  have nb: "\<not> on_boundary sample_grid (index (sample_door 4)) UP"
    and ob: "on_boundary sample_grid (index (sample_door 3)) LEFT"
    by (simp_all add: sample_grid_def sample_door_def Door_init_def on_boundary_def)
  from get_new_selection_clamps_or_moves[OF h(1,2,3,4,7)] nb
  have "get_new_selection sample_grid (sample_door 4) UP = 1"
    by (simp add: sample_grid_def sample_door_def Door_init_def row_delta_def col_delta_def)
  moreover from get_new_selection_clamps_or_moves[OF h(1,2,5,6,8)] ob
  have "get_new_selection sample_grid (sample_door 3) LEFT = 3"
    by (simp add: sample_door_def Door_init_def)
  ultimately show ?thesis using h nb ob by simp
qed

text \<open>
  C10. On a grid of at least one row and one column, for a door index of the grid and
  any action, \<^verbatim>\<open>_get_new_selection\<close> returns an index of the grid, so that reading a
  door list of \<open>num_doors\<close> doors at the new index does not raise and reads the position
  of that index.
\<close>

theorem get_new_selection_in_bounds:
  assumes "1 \<le> doors_horiz b" and "1 \<le> doors_vert b"
    and "0 \<le> index d" and "index d < num_doors b"
    and "int (length ds) = num_doors b"
  shows "0 \<le> get_new_selection b d a \<and> get_new_selection b d a < num_doors b \<and>
         py_index ds (get_new_selection b d a) = Inr (nat (get_new_selection b d a))"
  using get_new_selection_range[OF assms(3,4), of a] assms(5)
  by (simp add: py_index_def)

theorem get_new_selection_in_bounds_witness:
  "1 \<le> doors_horiz sample_grid \<and> 1 \<le> doors_vert sample_grid \<and>
   0 \<le> index (sample_door 5) \<and> index (sample_door 5) < num_doors sample_grid \<and>
   int (length (map sample_door [0, 1, 2, 3, 4, 5])) = num_doors sample_grid \<and>
   get_new_selection sample_grid (sample_door 5) DOWN < num_doors sample_grid \<and>
   py_index (map sample_door [0, 1, 2, 3, 4, 5]) (get_new_selection sample_grid (sample_door 5) DOWN)
     = Inr (nat (get_new_selection sample_grid (sample_door 5) DOWN))"
proof -
  have h: "1 \<le> doors_horiz sample_grid" "1 \<le> doors_vert sample_grid"
    "0 \<le> index (sample_door 5)" "index (sample_door 5) < num_doors sample_grid"
    "int (length (map sample_door [0, 1, 2, 3, 4, 5])) = num_doors sample_grid"
    by (simp_all add: sample_grid_def sample_door_def Door_init_def num_doors_def)
  from get_new_selection_in_bounds[OF h, of DOWN] h show ?thesis by simp
qed


section \<open>Redraw passes\<close>

lemma draw_updated_doors_clean: "d \<in> set (doors (draw_updated_doors b)) \<Longrightarrow> \<not> is_updated d"
  by (auto simp: draw_updated_doors_def)

lemma draw_all_doors_clean: "d \<in> set (doors (draw_all_doors b)) \<Longrightarrow> \<not> is_updated d"
  by (auto simp: draw_all_doors_def)

text \<open>
  C5. After a redraw pass returns, the incremental one (\<^verbatim>\<open>_draw_updated_doors\<close>) or
  the full one (\<^verbatim>\<open>_draw_all_doors\<close>), no door of the door list is flagged dirty,
  whatever the flags were before.
\<close>

theorem redraw_leaves_no_dirty_door:
  "(\<forall>d \<in> set (doors (draw_updated_doors b)). \<not> is_updated d) \<and>
   (\<forall>d \<in> set (doors (draw_all_doors b)). \<not> is_updated d)"
  by (simp add: draw_updated_doors_clean draw_all_doors_clean)

theorem redraw_leaves_no_dirty_door_witness:
  "is_updated (doors sample_board ! 3) \<and>
   doors (draw_updated_doors sample_board) ! 3 \<in> set (doors (draw_updated_doors sample_board)) \<and>
   \<not> is_updated (doors (draw_updated_doors sample_board) ! 3) \<and>
   doors (draw_all_doors sample_board) ! 3 \<in> set (doors (draw_all_doors sample_board)) \<and>
   \<not> is_updated (doors (draw_all_doors sample_board) ! 3)"
proof -
  have m: "doors (draw_updated_doors sample_board) ! 3 \<in> set (doors (draw_updated_doors sample_board))"
    "doors (draw_all_doors sample_board) ! 3 \<in> set (doors (draw_all_doors sample_board))"
    by (simp_all add: draw_updated_doors_def draw_all_doors_def sample_board_def)
  have d: "is_updated (doors sample_board ! 3)"
    by (simp add: sample_board_def sample_door_def Door_init_def)
  from redraw_leaves_no_dirty_door[of sample_board] m d show ?thesis by blast
qed


section \<open>The door-opening animation\<close>

lemma py_range_2_102_2: "py_range 2 102 2 = map (\<lambda>j. 2 + int j * 2) [0..<50]"
  by (simp add: py_range_def)

lemma draw_door_frame [simp]:
  "draw_door (b\<lparr>doors := ds, effects := es\<rparr>) d u = draw_door b d u"
  by (simp add: draw_door_def door_x_coord_def door_y_coord_def door_width_def door_height_def)

text \<open>The passes of the loop of \<^verbatim>\<open>_animate_open\<close> over any list of values: the door
  ends with the last value, and each value is drawn in turn.\<close>

lemma animate_open_steps:
  assumes "k < length (doors b)"
  shows "foldl (animate_open_step k) b vs =
     b\<lparr>doors := (if vs = [] then doors b else (doors b)[k := (doors b ! k)\<lparr>pct_open := last vs\<rparr>]),
       effects := effects b @
         concat (map (\<lambda>i. draw_door b ((doors b ! k)\<lparr>pct_open := i\<rparr>) True @ [Sleep_Open]) vs)\<rparr>"
proof (induction vs rule: rev_induct)
  case Nil
  show ?case by simp
next
  case (snoc v vs)
  have "foldl (animate_open_step k) b (vs @ [v])
          = animate_open_step k (foldl (animate_open_step k) b vs) v"
    by simp
  also have "\<dots> = animate_open_step k
     (b\<lparr>doors := (if vs = [] then doors b else (doors b)[k := (doors b ! k)\<lparr>pct_open := last vs\<rparr>]),
       effects := effects b @
         concat (map (\<lambda>i. draw_door b ((doors b ! k)\<lparr>pct_open := i\<rparr>) True @ [Sleep_Open]) vs)\<rparr>) v"
    by (simp only: snoc.IH)
  also have "\<dots> =
     b\<lparr>doors := (doors b)[k := (doors b ! k)\<lparr>pct_open := v\<rparr>],
       effects := effects b @
         concat (map (\<lambda>i. draw_door b ((doors b ! k)\<lparr>pct_open := i\<rparr>) True @ [Sleep_Open])
                     (vs @ [v]))\<rparr>"
    using assms by (simp add: animate_open_step_def Let_def)
  finally show ?case by simp
qed

lemma blitted_append [simp]: "blitted (es @ fs) = blitted es @ blitted fs"
  by (simp add: blitted_def)

lemma blitted_draw_door [simp]: "blitted (draw_door b d u) = [get_door_surface d]"
  by (simp add: blitted_def draw_door_def)

lemma blitted_frames:
  "blitted (concat (map (\<lambda>i. draw_door b (f i) True @ [Sleep_Open]) vs))
     = map (\<lambda>i. get_door_surface (f i)) vs"
  by (induction vs) (simp_all add: blitted_def draw_door_def)

text \<open>
  C6. One run of \<^verbatim>\<open>_animate_open\<close> on a door whose \<^verbatim>\<open>pct_open\<close> is 0 assigns the
  values of \<^verbatim>\<open>range(2, 102, 2)\<close> in order and draws the door after each assignment:
  the values are 2, 4, ..., in steps of 2, strictly increasing, the first above the
  initial 0, the last exactly 100, which occurs once; the door ends at 100 and the last
  surface blitted is that of the door at 100.
\<close>

theorem animate_open_ramps_to_100:
  assumes "k < length (doors b)" and "pct_open (doors b ! k) = 0"
  shows "effects (animate_open b k) = effects b @
           concat (map (\<lambda>i. draw_door b ((doors b ! k)\<lparr>pct_open := i\<rparr>) True @ [Sleep_Open])
                       (py_range 2 102 2)) \<and>
         py_range 2 102 2 = map (\<lambda>j. 2 + int j * 2) [0..<50] \<and>
         sorted_wrt (<) (py_range 2 102 2) \<and>
         pct_open (doors b ! k) < hd (py_range 2 102 2) \<and>
         last (py_range 2 102 2) = 100 \<and>
         count_list (py_range 2 102 2) 100 = 1 \<and>
         doors (animate_open b k) = (doors b)[k := (doors b ! k)\<lparr>pct_open := 100\<rparr>] \<and>
         last (blitted (effects (animate_open b k)))
           = get_door_surface ((doors b ! k)\<lparr>pct_open := 100\<rparr>)"
proof -
  let ?vs = "py_range 2 102 2"
  have vs: "?vs = map (\<lambda>j. 2 + int j * 2) [0..<50]" by (rule py_range_2_102_2)
  have ne: "?vs \<noteq> []" by (simp add: vs)
  have l: "last ?vs = 100" unfolding vs by (simp add: last_map last_upt)
  have h: "hd ?vs = 2" unfolding vs by (simp add: hd_map upt_rec)
  have s: "sorted_wrt (<) ?vs" unfolding vs
    by (simp add: sorted_wrt_iff_nth_less)
  have c: "count_list ?vs 100 = 1" unfolding vs by (simp add: upt_rec)
  have a: "animate_open b k =
     b\<lparr>doors := (doors b)[k := (doors b ! k)\<lparr>pct_open := 100\<rparr>],
       effects := effects b @
         concat (map (\<lambda>i. draw_door b ((doors b ! k)\<lparr>pct_open := i\<rparr>) True @ [Sleep_Open]) ?vs)\<rparr>"
    unfolding animate_open_def animate_open_steps[OF assms(1)] using ne l by simp
  have f: "last (blitted (effects (animate_open b k)))
           = get_door_surface ((doors b ! k)\<lparr>pct_open := 100\<rparr>)"
    unfolding a using ne l by (simp add: blitted_frames last_map)
  show ?thesis using vs s h l c a f assms(2) by simp
qed


theorem animate_open_ramps_to_100_witness:
  "2 < length (doors sample_board) \<and> pct_open (doors sample_board ! 2) = 0 \<and>
   pct_open (doors (animate_open sample_board 2) ! 2) = 100 \<and>
   last (blitted (effects (animate_open sample_board 2)))
     = Door_Face ''black'' 3 (Some (100, ''green'', ''c''))"
proof -
  have h: "2 < length (doors sample_board)" "pct_open (doors sample_board ! 2) = 0"
    by (simp_all add: sample_board_def sample_door_def Door_init_def)
  have s: "get_door_surface ((doors sample_board ! 2)\<lparr>pct_open := 100\<rparr>)
             = Door_Face ''black'' 3 (Some (100, ''green'', ''c''))"
    by (simp add: sample_board_def sample_door_def Door_init_def get_door_surface_def
        sample_props_def sample_activities_def)
  from animate_open_ramps_to_100[OF h]
  have d: "doors (animate_open sample_board 2)
             = (doors sample_board)[2 := (doors sample_board ! 2)\<lparr>pct_open := 100\<rparr>]"
    and f: "last (blitted (effects (animate_open sample_board 2)))
             = get_door_surface ((doors sample_board ! 2)\<lparr>pct_open := 100\<rparr>)"
    by blast+
  from h(1) have "pct_open (doors (animate_open sample_board 2) ! 2) = 100"
    unfolding d by simp
  with h f s show ?thesis by simp
qed

section \<open>Construction of the board\<close>

lemma random_choice_mem: "xs \<noteq> [] \<Longrightarrow> random_choice xs r \<in> set xs"
  by (simp add: random_choice_def)

lemma py_range_0_1: "py_range 0 n 1 = map int [0..<nat n]"
  by (simp add: py_range_def)

lemma build_door_loop_short:
  "length activities < length is \<Longrightarrow>
   build_door_loop b p rand hidden is activities = Inl IndexError"
proof (induction "is" arbitrary: activities)
  case Nil
  then show ?case by simp
next
  case (Cons i "is")
  show ?case
  proof (cases "activities = []")
    case True
    then show ?thesis by simp
  next
    case False
    let ?a = "random_choice activities (rand (nat i))"
    from False have "?a \<in> set activities" by (rule random_choice_mem)
    then have "length (remove1 ?a activities) = length activities - 1"
      by (simp add: length_remove1)
    moreover from False have "length activities \<noteq> 0" by simp
    moreover from Cons.prems have "length activities < Suc (length is)" by simp
    ultimately have "length (remove1 ?a activities) < length is" by arith
    then have "build_door_loop b p rand hidden is (remove1 ?a activities) = Inl IndexError"
      by (rule Cons.IH)
    with False show ?thesis by (simp add: Let_def)
  qed
qed

lemma build_door_loop_enough:
  "length is \<le> length activities \<Longrightarrow>
   \<exists>ds. build_door_loop b p rand hidden is activities = Inr ds \<and>
        map index ds = is \<and>
        mset (map activity ds) \<subseteq># mset activities \<and>
        (\<forall>d \<in> set ds. \<not> is_selected d \<and> \<not> is_open d \<and> \<not> is_revealed d \<and>
           is_hidden d = hidden \<and> pct_open d = 0 \<and> props d = p)"
proof (induction "is" arbitrary: activities)
  case Nil
  then show ?case by simp
next
  case (Cons i "is")
  then have ne: "activities \<noteq> []" by auto
  let ?a = "random_choice activities (rand (nat i))"
  from ne have mem: "?a \<in> set activities" by (rule random_choice_mem)
  then have "length is \<le> length (remove1 ?a activities)"
    using Cons.prems by (simp add: length_remove1)
  from Cons.IH[OF this] obtain ds where ds:
    "build_door_loop b p rand hidden is (remove1 ?a activities) = Inr ds"
    "map index ds = is" "mset (map activity ds) \<subseteq># mset (remove1 ?a activities)"
    "\<forall>d \<in> set ds. \<not> is_selected d \<and> \<not> is_open d \<and> \<not> is_revealed d \<and>
           is_hidden d = hidden \<and> pct_open d = 0 \<and> props d = p"
    by blast
  let ?d = "Door_init i (door_height b) (door_width b) ?a p hidden"
  have 1: "build_door_loop b p rand hidden (i # is) activities = Inr (?d # ds)"
    using ne ds(1) by (simp add: Let_def)
  have "add_mset ?a (mset (map activity ds)) \<subseteq># add_mset ?a (mset (remove1 ?a activities))"
    using ds(3) by simp
  also have "add_mset ?a (mset (remove1 ?a activities)) = mset activities"
    using mem by simp
  finally have 2: "mset (map activity (?d # ds)) \<subseteq># mset activities"
    by (simp add: Door_init_def)
  show ?case
    using 1 2 ds(2,4) by (simp add: Door_init_def)
qed











section \<open>The invariant of the run loop\<close>

lemma kept_refl [simp]: "kept d d"
  by (simp add: kept_def)

lemma kept_trans: "kept d d' \<Longrightarrow> kept d' d'' \<Longrightarrow> kept d d''"
  by (simp add: kept_def)

lemma list_all2_kept_refl [simp]: "list_all2 kept ds ds"
  by (simp add: list_all2_refl)

lemma list_all2_kept_trans:
  "list_all2 kept ds ds' \<Longrightarrow> list_all2 kept ds' ds'' \<Longrightarrow> list_all2 kept ds ds''"
  by (rule list_all2_trans[where ?P1.0 = kept and ?P2.0 = kept]) (auto intro: kept_trans)

lemma list_all2_kept_map:
  "(\<And>d. d \<in> set ds \<Longrightarrow> kept d (f d)) \<Longrightarrow> list_all2 kept ds (map f ds)"
  by (simp add: list_all2_map2 list_all2_same)

lemma list_all2_kept_update:
  "k < length ds \<Longrightarrow> kept (ds ! k) d \<Longrightarrow> list_all2 kept ds (ds[k := d])"
  by (simp add: list_all2_conv_all_nth nth_list_update)

lemma redrawn_refl [simp]: "redrawn b b"
  by (simp add: redrawn_def)

lemma redrawn_trans [trans]: "redrawn b b' \<Longrightarrow> redrawn b' b'' \<Longrightarrow> redrawn b b''"
  unfolding redrawn_def by (auto intro: list_all2_kept_trans)

lemma redrawn_effects [simp]: "redrawn b (b\<lparr>effects := es\<rparr>)"
  by (simp add: redrawn_def)

lemma redrawn_draw_updated_doors: "redrawn b (draw_updated_doors b)"
  by (simp add: redrawn_def draw_updated_doors_def list_all2_kept_map kept_def)

lemma redrawn_draw_all_doors: "redrawn b (draw_all_doors b)"
  by (simp add: redrawn_def draw_all_doors_def list_all2_kept_map kept_def)

lemma redrawn_show_activity: "redrawn b (show_activity b d)"
  by (simp add: show_activity_def)

lemma redrawn_play_random_sound: "redrawn b (play_random_sound c b)"
  by (simp add: play_random_sound_def)

lemma redrawn_event_clear: "redrawn b (event_clear b)"
  by (simp add: event_clear_def)

lemma redrawn_animate_open:
  assumes "k < length (doors b)"
  shows "redrawn b (animate_open b k)"
  unfolding animate_open_def animate_open_steps[OF assms]
  using assms by (simp add: redrawn_def list_all2_kept_update kept_def)

lemma redrawn_animate_open_all_step: "redrawn b (animate_open_all_step b i)"
proof -
  have "redrawn b (b\<lparr>doors := map (\<lambda>d. if \<not> is_open d then d\<lparr>pct_open := i, is_updated := True\<rparr> else d)
                       (doors b)\<rparr>)"
    by (simp add: redrawn_def list_all2_kept_map kept_def)
  then show ?thesis
    unfolding animate_open_all_step_def
    by (rule redrawn_trans) (rule redrawn_draw_updated_doors)
qed

lemma redrawn_animate_open_all_steps: "redrawn b (foldl animate_open_all_step b vs)"
proof (induction vs rule: rev_induct)
  case Nil
  show ?case by simp
next
  case (snoc v vs)
  have "redrawn (foldl animate_open_all_step b vs)
          (animate_open_all_step (foldl animate_open_all_step b vs) v)"
    by (rule redrawn_animate_open_all_step)
  with snoc.IH show ?case by (simp add: redrawn_trans)
qed

text \<open>\<^verbatim>\<open>_animate_open_all\<close> leaves every door revealed, and otherwise as it was.\<close>

lemma animate_open_all_revealed:
  "redrawn b (animate_open_all b) \<and> (\<forall>d \<in> set (doors (animate_open_all b)). is_revealed d)"
proof -
  let ?b0 = "b\<lparr>doors := map (\<lambda>d. if is_open d
                                        then d\<lparr>is_revealed := True, is_updated := True\<rparr> else d)
                                 (doors b)\<rparr>"
  let ?b1 = "draw_updated_doors ?b0"
  let ?b2 = "foldl animate_open_all_step ?b1 (py_range 5 105 5)"
  let ?b3 = "?b2\<lparr>doors := map (\<lambda>d. d\<lparr>is_revealed := True, is_updated := True\<rparr>) (doors ?b2)\<rparr>"
  have a: "animate_open_all b = draw_updated_doors ?b3"
    by (simp add: animate_open_all_def Let_def)
  have "redrawn b ?b0" by (simp add: redrawn_def list_all2_kept_map kept_def)
  also have "redrawn ?b0 ?b1" by (rule redrawn_draw_updated_doors)
  also have "redrawn ?b1 ?b2" by (rule redrawn_animate_open_all_steps)
  also have "redrawn ?b2 ?b3" by (simp add: redrawn_def list_all2_kept_map kept_def)
  also have "redrawn ?b3 (draw_updated_doors ?b3)" by (rule redrawn_draw_updated_doors)
  finally have 1: "redrawn b (animate_open_all b)" unfolding a .
  have 2: "\<forall>d \<in> set (doors (animate_open_all b)). is_revealed d"
    unfolding a by (auto simp: draw_updated_doors_def)
  from 1 2 show ?thesis ..
qed

lemma redrawn_length: "redrawn b b' \<Longrightarrow> length (doors b') = length (doors b)"
  by (auto simp: redrawn_def dest: list_all2_lengthD)

lemma redrawn_nth: "redrawn b b' \<Longrightarrow> i < length (doors b) \<Longrightarrow> kept (doors b ! i) (doors b' ! i)"
  by (simp add: redrawn_def list_all2_nthD)

lemma redrawn_grid_doors:
  assumes "redrawn b b'" and "grid_doors b"
  shows "grid_doors b'"
proof -
  have "num_doors b' = num_doors b" using assms(1) by (simp add: redrawn_def num_doors_def)
  moreover have "index (doors b' ! i) = index (doors b ! i)" if "i < length (doors b)" for i
    using redrawn_nth[OF assms(1) that] by (simp add: kept_def)
  ultimately show ?thesis
    using assms(2) redrawn_length[OF assms(1)] by (simp add: grid_doors_def)
qed

lemma redrawn_cursor_at:
  assumes "redrawn b b'" and "cursor_at (doors b) k"
  shows "cursor_at (doors b') k"
proof -
  have "is_selected (doors b' ! i) = is_selected (doors b ! i)" if "i < length (doors b)" for i
    using redrawn_nth[OF assms(1) that] by (simp add: kept_def)
  then show ?thesis
    using assms(2) redrawn_length[OF assms(1)] by (simp add: cursor_at_def)
qed

lemma redrawn_none_selected:
  assumes "redrawn b b'" and "\<forall>d \<in> set (doors b). \<not> is_selected d"
  shows "\<forall>d \<in> set (doors b'). \<not> is_selected d"
proof
  fix d' assume "d' \<in> set (doors b')"
  then obtain i where i: "i < length (doors b')" "d' = doors b' ! i"
    by (auto simp: in_set_conv_nth)
  then have l: "i < length (doors b)" using redrawn_length[OF assms(1)] by simp
  then have "doors b ! i \<in> set (doors b)" by simp
  with assms(2) have "\<not> is_selected (doors b ! i)" by blast
  with redrawn_nth[OF assms(1) l] i(2) show "\<not> is_selected d'" by (simp add: kept_def)
qed

lemma redrawn_none_hidden:
  assumes "redrawn b b'" and "\<forall>d \<in> set (doors b). \<not> is_hidden d"
  shows "\<forall>d \<in> set (doors b'). \<not> is_hidden d"
proof
  fix d' assume "d' \<in> set (doors b')"
  then obtain i where i: "i < length (doors b')" "d' = doors b' ! i"
    by (auto simp: in_set_conv_nth)
  then have l: "i < length (doors b)" using redrawn_length[OF assms(1)] by simp
  then have "doors b ! i \<in> set (doors b)" by simp
  with assms(2) have "\<not> is_hidden (doors b ! i)" by blast
  with redrawn_nth[OF assms(1) l] i(2) show "\<not> is_hidden d'" by (auto simp: kept_def)
qed

lemma redrawn_board_inv:
  assumes "redrawn b b'" and "board_inv b"
  shows "board_inv b'"
proof -
  have s: "state b' = state b" "selected_door b' = selected_door b" "play_again b' = play_again b"
    "start_hidden b' = start_hidden b"
    using assms(1) by (simp_all add: redrawn_def)
  show ?thesis
    using assms(2) redrawn_grid_doors[OF assms(1)] redrawn_cursor_at[OF assms(1)]
      redrawn_none_selected[OF assms(1)] redrawn_none_hidden[OF assms(1)]
    unfolding board_inv_def s by (auto split: if_splits)
qed

text \<open>Assignments of the run loop to the state and to \<open>play_again\<close>.\<close>

lemma board_inv_state:
  assumes "board_inv b" and "state b \<noteq> START" and "s \<noteq> START" and "s \<noteq> GAME_OVER"
  shows "board_inv (b\<lparr>state := s\<rparr>)"
  using assms by (simp add: board_inv_def grid_doors_def num_doors_def)

lemma board_inv_game_over:
  assumes "board_inv b" and "state b \<noteq> START"
  shows "board_inv (b\<lparr>play_again := Some p, state := GAME_OVER\<rparr>)"
  using assms by (simp add: board_inv_def grid_doors_def num_doors_def)

lemma board_inv_mark_open:
  assumes "board_inv b" and "k < length (doors b)" and "state b \<noteq> START"
  shows "board_inv (b\<lparr>doors := (doors b)[k := (doors b ! k)\<lparr>is_open := True\<rparr>]\<rparr>)"
proof -
  let ?ds = "(doors b)[k := (doors b ! k)\<lparr>is_open := True\<rparr>]"
  have sel: "is_selected (?ds ! i) = is_selected (doors b ! i)" for i
    using assms(2) by (cases "i = k") simp_all
  have idx: "index (?ds ! i) = index (doors b ! i)" for i
    using assms(2) by (cases "i = k") simp_all
  have hid: "\<forall>d \<in> set ?ds. \<not> is_hidden d" if "\<forall>d \<in> set (doors b). \<not> is_hidden d"
  proof
    fix d assume "d \<in> set ?ds"
    then have "d = (doors b ! k)\<lparr>is_open := True\<rparr> \<or> d \<in> set (doors b)"
      using set_update_subset_insert[of "doors b" k] by auto
    with that assms(2) show "\<not> is_hidden d" by auto
  qed
  show ?thesis
    using assms sel idx hid
    by (auto simp: board_inv_def grid_doors_def num_doors_def cursor_at_def)
qed

lemma redrawn_state: "redrawn b b' \<Longrightarrow> state b' = state b"
  by (simp add: redrawn_def)

lemma board_inv_cursor:
  assumes "board_inv b" and "state b \<noteq> START"
  obtains k where "selected_door b = Some k" "cursor_at (doors b) k" "k < length (doors b)"
  using assms by (auto simp: board_inv_def cursor_at_def)

text \<open>The two assignments of the directional branch: the old door loses the selection,
  the new one gets it, and no other door changes.\<close>

lemma move_cursor:
  assumes "cursor_at ds k" and "j < length ds" and "j \<noteq> k"
  defines "ds1 \<equiv> ds[k := (ds ! k)\<lparr>is_selected := False, is_updated := True\<rparr>]"
  defines "ds2 \<equiv> ds1[j := (ds1 ! j)\<lparr>is_selected := True, is_updated := True\<rparr>]"
  shows "cursor_at ds2 j"
    and "length ds2 = length ds"
    and "\<And>i. index (ds2 ! i) = index (ds ! i)"
    and "\<And>i. is_hidden (ds2 ! i) = is_hidden (ds ! i)"
proof -
  have k: "k < length ds" using assms(1) by (simp add: cursor_at_def)
  show len: "length ds2 = length ds" by (simp add: ds1_def ds2_def)
  have nth: "ds2 ! i = (if i = j then (ds ! j)\<lparr>is_selected := True, is_updated := True\<rparr>
                        else if i = k then (ds ! k)\<lparr>is_selected := False, is_updated := True\<rparr>
                        else ds ! i)" for i
    using k assms(2,3) by (simp add: ds1_def ds2_def)
  have sel: "is_selected (ds ! i) = (i = k)" if "i < length ds" for i
    using assms(1) that by (simp add: cursor_at_def)
  show "cursor_at ds2 j"
    unfolding cursor_at_def len using assms(2) nth sel by simp
  show "index (ds2 ! i) = index (ds ! i)" for i
    by (simp add: nth)
  show "is_hidden (ds2 ! i) = is_hidden (ds ! i)" for i
    by (simp add: nth)
qed

lemma board_inv_move:
  assumes "board_inv b" and "state b \<noteq> START" and "cursor_at (doors b) k"
    and "j < length (doors b)" and "j \<noteq> k"
  defines "ds1 \<equiv> (doors b)[k := (doors b ! k)\<lparr>is_selected := False, is_updated := True\<rparr>]"
  defines "ds2 \<equiv> ds1[j := (ds1 ! j)\<lparr>is_selected := True, is_updated := True\<rparr>]"
  shows "board_inv (b\<lparr>doors := ds2, selected_door := Some j\<rparr>)"
proof -
  note m = move_cursor[OF assms(3,4,5), folded ds1_def, folded ds2_def]
  have hid: "\<forall>d \<in> set ds2. \<not> is_hidden d"
  proof
    fix d assume "d \<in> set ds2"
    then obtain i where i: "i < length ds2" "d = ds2 ! i" by (auto simp: in_set_conv_nth)
    then have "doors b ! i \<in> set (doors b)" using m(2) by simp
    with assms(1,2) have "\<not> is_hidden (doors b ! i)" by (auto simp: board_inv_def)
    with i(2) m(4) show "\<not> is_hidden d" by simp
  qed
  show ?thesis
    using assms(1,2) m(1,2,3) hid
    by (auto simp: board_inv_def grid_doors_def num_doors_def)
qed

text \<open>The branches of the \<^verbatim>\<open>SELECTING\<close> event body, one equation each.\<close>

lemma SELECTING_event_OPEN_closed:
  assumes "selected_door b = Some k" and "\<not> is_open (doors b ! k)"
  shows "SELECTING_event b (Some OPEN) =
     (let b1 = play_random_sound Open_Sound b;
          b2 = animate_open b1 k;
          b3 = show_activity b2 (doors b2 ! k);
          b4 = b3\<lparr>doors := (doors b3)[k := (doors b3 ! k)\<lparr>is_open := True\<rparr>]\<rparr>
      in Inr (event_clear (b4\<lparr>state := IN_PROGRESS\<rparr>)))"
  using assms by (simp add: SELECTING_event_def)

lemma SELECTING_event_OPEN_open:
  assumes "selected_door b = Some k" and "is_open (doors b ! k)"
  shows "SELECTING_event b (Some OPEN) = Inr (event_clear (play_random_sound Oops_Sound b))"
  using assms by (simp add: SELECTING_event_def)

lemma SELECTING_event_RESTART:
  "SELECTING_event b (Some RESTART)
     = Inr (event_clear (b\<lparr>play_again := Some True, state := GAME_OVER\<rparr>))"
  by (simp add: SELECTING_event_def)

lemma SELECTING_event_QUIT:
  "SELECTING_event b (Some QUIT)
     = Inr (event_clear (b\<lparr>play_again := Some False, state := GAME_OVER\<rparr>))"
  by (simp add: SELECTING_event_def)

lemma SELECTING_event_REVEAL:
  "SELECTING_event b (Some REVEAL)
     = Inr (event_clear ((animate_open_all (play_random_sound Reveal_All_Sound b))
                            \<lparr>state := ALL_REVEALED\<rparr>))"
  by (simp add: SELECTING_event_def)

lemma SELECTING_event_ignored:
  assumes "a = None \<or> a = Some RETURN"
  shows "SELECTING_event b a = Inr b"
  using assms by (auto simp: SELECTING_event_def)

lemma SELECTING_event_stay:
  assumes "directional a" and "selected_door b = Some k"
    and "get_new_selection b (doors b ! k) a = index (doors b ! k)"
  shows "SELECTING_event b (Some a) = Inr (event_clear b)"
  using assms by (auto simp: SELECTING_event_def directional_def)

lemma SELECTING_event_move:
  assumes "directional a" and "selected_door b = Some k"
    and "get_new_selection b (doors b ! k) a \<noteq> index (doors b ! k)"
    and "0 \<le> get_new_selection b (doors b ! k) a"
    and "get_new_selection b (doors b ! k) a < int (length (doors b))"
  shows "SELECTING_event b (Some a) =
     (let j = nat (get_new_selection b (doors b ! k) a);
          ds1 = (doors b)[k := (doors b ! k)\<lparr>is_selected := False, is_updated := True\<rparr>];
          ds2 = ds1[j := (ds1 ! j)\<lparr>is_selected := True, is_updated := True\<rparr>]
      in Inr (event_clear (draw_updated_doors
               (play_random_sound Move_Sound (b\<lparr>doors := ds2, selected_door := Some j\<rparr>)))))"
  using assms by (auto simp: SELECTING_event_def directional_def py_index_def Let_def)

lemma event_clear_inv:
  assumes "board_inv b" and "state b \<noteq> START"
  shows "board_inv (event_clear b) \<and> state (event_clear b) \<noteq> START"
  using redrawn_board_inv[OF redrawn_event_clear assms(1)] assms(2)
  by (simp add: event_clear_def)

text \<open>In a board that satisfies the invariant the directional branch stays inside the
  door list.\<close>

lemma selection_in_grid:
  assumes "board_inv b" and "cursor_at (doors b) k"
  shows "0 \<le> get_new_selection b (doors b ! k) a"
    and "get_new_selection b (doors b ! k) a < int (length (doors b))"
    and "index (doors b ! k) = int k"
proof -
  have k: "k < length (doors b)" using assms(2) by (simp add: cursor_at_def)
  have g: "length (doors b) = nat (num_doors b)" "index (doors b ! k) = int k"
    using assms(1) k by (simp_all add: board_inv_def grid_doors_def)
  from k g(1) have n: "int (length (doors b)) = num_doors b" by simp
  have "0 \<le> index (doors b ! k)" "index (doors b ! k) < num_doors b"
    using k g(2) n by simp_all
  from get_new_selection_range[OF this, of a] n
  show "0 \<le> get_new_selection b (doors b ! k) a"
    and "get_new_selection b (doors b ! k) a < int (length (doors b))"
    by simp_all
  show "index (doors b ! k) = int k" by (rule g(2))
qed

lemma SELECTING_event_inv:
  assumes "board_inv b" and "state b \<noteq> START"
  shows "\<exists>b'. SELECTING_event b a = Inr b' \<and> board_inv b' \<and> state b' \<noteq> START"
proof -
  from assms obtain k where k: "selected_door b = Some k" "cursor_at (doors b) k"
    "k < length (doors b)"
    by (rule board_inv_cursor)
  consider "a = None \<or> a = Some RETURN" | "a = Some RESTART" | "a = Some QUIT"
    | "a = Some REVEAL" | "a = Some OPEN" | x where "a = Some x" "directional x"
    by (cases a) (auto simp: directional_def intro: Action.exhaust)
  then show ?thesis
  proof cases
    case 1
    then show ?thesis using assms by (simp add: SELECTING_event_ignored)
  next
    case 2
    show ?thesis
      unfolding 2 SELECTING_event_RESTART
      using event_clear_inv[OF board_inv_game_over[OF assms, of True]] by simp
  next
    case 3
    show ?thesis
      unfolding 3 SELECTING_event_QUIT
      using event_clear_inv[OF board_inv_game_over[OF assms, of False]] by simp
  next
    case 4
    let ?b1 = "play_random_sound Reveal_All_Sound b"
    have "redrawn b ?b1" by (rule redrawn_play_random_sound)
    also have "redrawn ?b1 (animate_open_all ?b1)"
      using animate_open_all_revealed[of ?b1] by simp
    finally have r: "redrawn b (animate_open_all ?b1)" .
    have "board_inv ((animate_open_all ?b1)\<lparr>state := ALL_REVEALED\<rparr>)"
      using redrawn_board_inv[OF r assms(1)] redrawn_state[OF r] assms(2)
      by (intro board_inv_state) simp_all
    from event_clear_inv[OF this] show ?thesis
      unfolding 4 SELECTING_event_REVEAL by simp
  next
    case 5
    show ?thesis
    proof (cases "is_open (doors b ! k)")
      case True
      have "board_inv (play_random_sound Oops_Sound b)"
        "state (play_random_sound Oops_Sound b) \<noteq> START"
        using redrawn_board_inv[OF redrawn_play_random_sound assms(1)] assms(2)
        by (simp_all add: play_random_sound_def)
      from event_clear_inv[OF this] show ?thesis
        unfolding 5 SELECTING_event_OPEN_open[OF k(1) True] by simp
    next
      case False
      let ?b1 = "play_random_sound Open_Sound b"
      let ?b2 = "animate_open ?b1 k"
      let ?b3 = "show_activity ?b2 (doors ?b2 ! k)"
      let ?b4 = "?b3\<lparr>doors := (doors ?b3)[k := (doors ?b3 ! k)\<lparr>is_open := True\<rparr>]\<rparr>"
      have "redrawn b ?b1" by (rule redrawn_play_random_sound)
      also have "redrawn ?b1 ?b2"
        using k(3) by (intro redrawn_animate_open) (simp add: play_random_sound_def)
      also have "redrawn ?b2 ?b3" by (rule redrawn_show_activity)
      finally have r: "redrawn b ?b3" .
      have "board_inv ?b4"
        using redrawn_board_inv[OF r assms(1)] redrawn_length[OF r] redrawn_state[OF r] k(3) assms(2)
        by (intro board_inv_mark_open) simp_all
      moreover have "state ?b4 \<noteq> START" using redrawn_state[OF r] assms(2) by simp
      ultimately have "board_inv (?b4\<lparr>state := IN_PROGRESS\<rparr>)"
        by (intro board_inv_state) simp_all
      from event_clear_inv[OF this] show ?thesis
        unfolding 5 SELECTING_event_OPEN_closed[OF k(1) False] Let_def by simp
    qed
  next
    case 6
    note g = selection_in_grid[OF assms(1) k(2)]
    show ?thesis
    proof (cases "get_new_selection b (doors b ! k) x = index (doors b ! k)")
      case True
      from event_clear_inv[OF assms] show ?thesis
        unfolding 6(1) SELECTING_event_stay[OF 6(2) k(1) True] by simp
    next
      case False
      let ?j = "nat (get_new_selection b (doors b ! k) x)"
      let ?ds1 = "(doors b)[k := (doors b ! k)\<lparr>is_selected := False, is_updated := True\<rparr>]"
      let ?ds2 = "?ds1[?j := (?ds1 ! ?j)\<lparr>is_selected := True, is_updated := True\<rparr>]"
      let ?b1 = "b\<lparr>doors := ?ds2, selected_door := Some ?j\<rparr>"
      have j: "?j < length (doors b)" "?j \<noteq> k"
        using g(1)[of x] g(2)[of x] g(3) False by simp_all
      have i1: "board_inv ?b1" using assms k(2) j by (rule board_inv_move)
      have "redrawn ?b1 (play_random_sound Move_Sound ?b1)" by (rule redrawn_play_random_sound)
      also have "redrawn (play_random_sound Move_Sound ?b1)
                    (draw_updated_doors (play_random_sound Move_Sound ?b1))"
        by (rule redrawn_draw_updated_doors)
      finally have r: "redrawn ?b1 (draw_updated_doors (play_random_sound Move_Sound ?b1))" .
      have "board_inv (draw_updated_doors (play_random_sound Move_Sound ?b1))"
        "state (draw_updated_doors (play_random_sound Move_Sound ?b1)) \<noteq> START"
        using redrawn_board_inv[OF r i1] redrawn_state[OF r] assms(2) by simp_all
      from event_clear_inv[OF this] show ?thesis
        unfolding 6(1) SELECTING_event_move[OF 6(2) k(1) False g(1,2)] Let_def by simp
    qed
  qed
qed

lemma IN_PROGRESS_event_inv:
  assumes "board_inv b" and "state b \<noteq> START"
  shows "\<exists>b'. IN_PROGRESS_event b a = Inr b' \<and> board_inv b' \<and> state b' \<noteq> START"
proof (cases "a = Some RETURN")
  case True
  have r: "redrawn b (draw_all_doors b)" by (rule redrawn_draw_all_doors)
  have "board_inv ((draw_all_doors b)\<lparr>state := SELECTING\<rparr>)"
    using redrawn_board_inv[OF r assms(1)] redrawn_state[OF r] assms(2)
    by (intro board_inv_state) simp_all
  from event_clear_inv[OF this] True show ?thesis by (simp add: IN_PROGRESS_event_def)
next
  case False
  with assms show ?thesis by (simp add: IN_PROGRESS_event_def)
qed

lemma ALL_REVEALED_event_inv:
  assumes "board_inv b" and "state b \<noteq> START"
  shows "\<exists>b'. ALL_REVEALED_event b a = Inr b' \<and> board_inv b' \<and> state b' \<noteq> START"
  using assms event_clear_inv[OF board_inv_game_over[OF assms, of True]]
    event_clear_inv[OF board_inv_game_over[OF assms, of False]]
  by (simp add: ALL_REVEALED_event_def)

lemma for_events_inv:
  assumes "\<And>b a. board_inv b \<Longrightarrow> state b \<noteq> START \<Longrightarrow>
             \<exists>b'. body b a = Inr b' \<and> board_inv b' \<and> state b' \<noteq> START"
    and "board_inv b" and "state b \<noteq> START"
  shows "\<exists>b'. for_events body b events = Inr b' \<and> board_inv b' \<and> state b' \<noteq> START"
  using assms(2,3)
proof (induction events arbitrary: b)
  case Nil
  then show ?case by simp
next
  case (Cons a events)
  from assms(1)[OF Cons.prems, of a] obtain b1 where
    b1: "body b a = Inr b1" "board_inv b1" "state b1 \<noteq> START"
    by blast
  from Cons.IH[OF b1(2,3)] b1(1) show ?case by simp
qed

lemma run_events_inv:
  assumes "board_inv b" and "state b \<noteq> START"
  shows "\<exists>b'. run_events b events = Inr b' \<and> board_inv b' \<and> state b' \<noteq> START"
proof (cases "state b")
  case SELECTING
  with for_events_inv[of SELECTING_event, OF SELECTING_event_inv assms] show ?thesis
    by (simp add: run_events_def)
next
  case IN_PROGRESS
  with for_events_inv[of IN_PROGRESS_event, OF IN_PROGRESS_event_inv assms] show ?thesis
    by (simp add: run_events_def)
next
  case ALL_REVEALED
  with for_events_inv[of ALL_REVEALED_event, OF ALL_REVEALED_event_inv assms] show ?thesis
    by (simp add: run_events_def)
qed (use assms in \<open>simp_all add: run_events_def\<close>)

lemma draw_updated_doors_nth_hidden:
  "i < length (doors b) \<Longrightarrow>
   is_hidden (doors (draw_updated_doors b) ! i) = is_hidden (doors b ! i)"
  by (simp add: draw_updated_doors_def)

text \<open>The loop of \<^verbatim>\<open>_animate_intro\<close> does not raise when the indices left to show are
  positions of the door list, and it shows every door whose index is in the list.\<close>

lemma animate_intro_loop_shows:
  assumes "\<forall>x \<in> set xs. 0 \<le> x \<and> x < int (length (doors b))"
  shows "\<exists>b'. animate_intro_loop rand k xs b = Inr b' \<and> redrawn b b' \<and>
           (\<forall>j < length (doors b). int j \<in> set xs \<or> \<not> is_hidden (doors b ! j)
              \<longrightarrow> \<not> is_hidden (doors b' ! j))"
  using assms
proof (induction "length xs" arbitrary: xs b k)
  case 0
  then have "xs = []" by simp
  then show ?case by simp
next
  case (Suc n)
  then have ne: "xs \<noteq> []" by auto
  let ?x = "random_choice xs (rand k)"
  let ?j = "nat ?x"
  let ?b0 = "b\<lparr>doors := (doors b)[?j := (doors b ! ?j)\<lparr>is_hidden := False, is_updated := True\<rparr>]\<rparr>"
  let ?b1 = "draw_updated_doors ?b0"
  let ?b2 = "?b1\<lparr>effects := effects ?b1 @ [Sleep_Intro]\<rparr>"
  from ne have mem: "?x \<in> set xs" by (rule random_choice_mem)
  with Suc.prems have x: "0 \<le> ?x" "?x < int (length (doors b))" by auto
  then have j: "?j < length (doors b)" by simp
  from x have py: "py_index (doors b) ?x = Inr ?j" by (simp add: py_index_def)
  have step: "animate_intro_loop rand k xs b
                = animate_intro_loop rand (Suc k) (remove1 ?x xs) ?b2"
    using ne py by (subst animate_intro_loop.simps) (simp add: Let_def)
  have "redrawn b ?b0"
    using j by (simp add: redrawn_def list_all2_kept_update kept_def)
  also have "redrawn ?b0 ?b1" by (rule redrawn_draw_updated_doors)
  also have "redrawn ?b1 ?b2" by simp
  finally have r: "redrawn b ?b2" .
  have len: "length (doors ?b2) = length (doors b)" using r by (rule redrawn_length)
  have shown: "\<not> is_hidden (doors ?b2 ! ?j)"
    using j by (simp add: draw_updated_doors_nth_hidden)
  have n: "n = length (remove1 ?x xs)"
    using Suc.hyps(2) mem by (simp add: length_remove1)
  have rest: "\<forall>y \<in> set (remove1 ?x xs). 0 \<le> y \<and> y < int (length (doors ?b2))"
    unfolding len using Suc.prems by (auto dest: notin_set_remove1)
  from Suc.hyps(1)[OF n rest, of "Suc k"] obtain b' where b':
    "animate_intro_loop rand (Suc k) (remove1 ?x xs) ?b2 = Inr b'" "redrawn ?b2 b'"
    "\<forall>i < length (doors ?b2). int i \<in> set (remove1 ?x xs) \<or> \<not> is_hidden (doors ?b2 ! i)
        \<longrightarrow> \<not> is_hidden (doors b' ! i)"
    by blast
  have "\<not> is_hidden (doors b' ! i)"
    if i: "i < length (doors b)" and h: "int i \<in> set xs \<or> \<not> is_hidden (doors b ! i)" for i
  proof -
    have "int i \<in> set (remove1 ?x xs) \<or> \<not> is_hidden (doors ?b2 ! i)"
    proof (cases "i = ?j")
      case True
      with shown show ?thesis by simp
    next
      case False
      with x(1) have ne': "int i \<noteq> ?x" by auto
      from h show ?thesis
      proof
        assume "int i \<in> set xs"
        with ne' show ?thesis by simp
      next
        assume "\<not> is_hidden (doors b ! i)"
        with redrawn_nth[OF r i] show ?thesis by (auto simp: kept_def)
      qed
    qed
    moreover from i len have "i < length (doors ?b2)" by simp
    ultimately show ?thesis using b'(3) by blast
  qed
  with b'(1,2) r step show ?case by (auto intro: redrawn_trans)
qed

lemma animate_intro_shows:
  assumes "length (doors b) = nat (num_doors b)"
  shows "\<exists>b'. animate_intro rand b = Inr b' \<and> redrawn b b' \<and>
           (\<forall>d \<in> set (doors b'). \<not> is_hidden d)"
proof -
  let ?b0 = "draw_all_doors b"
  have r0: "redrawn b ?b0" by (rule redrawn_draw_all_doors)
  have len: "length (doors ?b0) = nat (num_doors b)"
    using redrawn_length[OF r0] assms by simp
  have n: "num_doors ?b0 = num_doors b" using r0 by (simp add: redrawn_def num_doors_def)
  have "\<forall>x \<in> set (py_range 0 (num_doors b) 1). 0 \<le> x \<and> x < int (length (doors ?b0))"
    unfolding len py_range_0_1 by auto
  from animate_intro_loop_shows[OF this, of rand 0] obtain b' where b':
    "animate_intro_loop rand 0 (py_range 0 (num_doors b) 1) ?b0 = Inr b'" "redrawn ?b0 b'"
    "\<forall>j < length (doors ?b0). int j \<in> set (py_range 0 (num_doors b) 1)
         \<or> \<not> is_hidden (doors ?b0 ! j) \<longrightarrow> \<not> is_hidden (doors b' ! j)"
    by blast
  have "\<not> is_hidden d" if "d \<in> set (doors b')" for d
  proof -
    from that obtain j where j: "j < length (doors b')" "d = doors b' ! j"
      by (auto simp: in_set_conv_nth)
    then have l: "j < length (doors ?b0)" using redrawn_length[OF b'(2)] by simp
    then have "int j \<in> set (py_range 0 (num_doors b) 1)"
      unfolding len py_range_0_1 by simp
    with b'(3) l j(2) show ?thesis by simp
  qed
  with b'(1,2) r0 show ?thesis
    unfolding animate_intro_def by (auto intro: redrawn_trans)
qed

lemma START_branch_inv:
  assumes "board_inv b" and "state b = START" and "START_branch rand b = Inr b'"
  shows "board_inv b' \<and> state b' = SELECTING"
proof -
  let ?b1 = "play_random_sound Start_Sound b"
  have r1: "redrawn b ?b1" by (rule redrawn_play_random_sound)
  have g: "grid_doors b" and ns: "\<forall>d \<in> set (doors b). \<not> is_selected d"
    and vis: "start_hidden b \<or> (\<forall>d \<in> set (doors b). \<not> is_hidden d)"
    using assms(1,2) by (simp_all add: board_inv_def)
  have "\<exists>b2. (if start_hidden ?b1 then animate_intro rand ?b1 else Inr (draw_all_doors ?b1)) = Inr b2
          \<and> redrawn ?b1 b2 \<and> (\<forall>d \<in> set (doors b2). \<not> is_hidden d)"
  proof (cases "start_hidden ?b1")
    case True
    have "length (doors ?b1) = nat (num_doors ?b1)"
      using g by (simp add: grid_doors_def play_random_sound_def num_doors_def)
    from animate_intro_shows[OF this, of rand] True show ?thesis by simp
  next
    case False
    then have "\<forall>d \<in> set (doors ?b1). \<not> is_hidden d"
      using vis by (simp add: play_random_sound_def)
    with False redrawn_none_hidden[OF redrawn_draw_all_doors[of ?b1]]
    show ?thesis by (simp add: redrawn_draw_all_doors)
  qed
  then obtain b2 where b2:
    "(if start_hidden ?b1 then animate_intro rand ?b1 else Inr (draw_all_doors ?b1)) = Inr b2"
    "redrawn ?b1 b2" "\<forall>d \<in> set (doors b2). \<not> is_hidden d"
    by blast
  from r1 b2(2) have r: "redrawn b b2" by (rule redrawn_trans)
  have g2: "grid_doors b2" using r g by (rule redrawn_grid_doors)
  have ns2: "\<forall>d \<in> set (doors b2). \<not> is_selected d" using r ns by (rule redrawn_none_selected)
  from assms(3) b2(1) obtain d0 ds where ds: "doors b2 = d0 # ds"
    by (cases "doors b2") (simp_all add: START_branch_def Let_def)
  let ?b3 = "b2\<lparr>doors := d0\<lparr>is_selected := True, is_updated := True\<rparr> # ds,
               selected_door := Some 0\<rparr>"
  let ?b4 = "draw_updated_doors ?b3"
  from assms(3) b2(1) ds have b': "b' = event_clear (?b4\<lparr>state := SELECTING\<rparr>)"
    by (simp add: START_branch_def Let_def)
  have r4: "redrawn ?b3 ?b4" by (rule redrawn_draw_updated_doors)
  have "index ((d0\<lparr>is_selected := True, is_updated := True\<rparr> # ds) ! i) = index ((d0 # ds) ! i)"
    for i by (cases i) simp_all
  then have g3: "grid_doors ?b3"
    using g2 ds by (simp add: grid_doors_def num_doors_def)
  have "is_selected ((d0\<lparr>is_selected := True, is_updated := True\<rparr> # ds) ! i) = (i = 0)"
    if "i < Suc (length ds)" for i
  proof (cases i)
    case 0
    then show ?thesis by simp
  next
    case (Suc m)
    with that have "ds ! m \<in> set (doors b2)" using ds by simp
    with ns2 Suc show ?thesis by simp
  qed
  then have c3: "cursor_at (doors ?b3) 0"
    by (simp add: cursor_at_def)
  have h3: "\<forall>d \<in> set (doors ?b3). \<not> is_hidden d"
    using b2(3) ds by auto
  have "grid_doors ?b4" "cursor_at (doors ?b4) 0" "\<forall>d \<in> set (doors ?b4). \<not> is_hidden d"
    "selected_door ?b4 = Some 0"
    using redrawn_grid_doors[OF r4 g3] redrawn_cursor_at[OF r4 c3]
      redrawn_none_hidden[OF r4 h3] r4
    by (simp_all add: redrawn_def)
  then show ?thesis
    unfolding b' by (simp add: board_inv_def event_clear_def grid_doors_def num_doors_def)
qed

lemma run_loop_inv:
  assumes "board_inv b" and "run_loop n rand queue b = Running b'"
  shows "board_inv b'"
  using assms
proof (induction n arbitrary: queue b)
  case 0
  then show ?case by simp
next
  case (Suc n)
  show ?case
  proof (cases "state b = GAME_OVER")
    case True
    with Suc.prems(2) show ?thesis by (simp split: option.splits)
  next
    case False
    show ?thesis
    proof (cases "state b = START")
      case True
      with Suc.prems(2) obtain b1 where b1: "START_branch rand b = Inr b1"
        "run_loop n rand queue b1 = Running b'"
        by (auto split: sum.splits)
      from START_branch_inv[OF Suc.prems(1) True b1(1)] have "board_inv b1" ..
      from Suc.IH[OF this b1(2)] show ?thesis .
    next
      case START: False
      let ?events = "case queue of [] \<Rightarrow> [] | events # _ \<Rightarrow> events"
      from run_events_inv[OF Suc.prems(1) START, of ?events] obtain b1 where
        b1: "run_events b ?events = Inr b1" "board_inv b1"
        by blast
      with Suc.prems(2) False START have "run_loop n rand (tl queue) b1 = Running b'" by simp
      from Suc.IH[OF b1(2) this] show ?thesis .
    qed
  qed
qed

lemma ActivityBoard_init_inv:
  assumes "ActivityBoard_init w h dh dv p activities rand hidden disp = Inr b0"
  shows "board_inv (b0\<lparr>state := START, selected_door := None, play_again := None\<rparr>)"
proof -
  let ?b = "\<lparr>surface_width = w, surface_height = h, surface_is_display = disp,
             doors_horiz = dh, doors_vert = dv, start_hidden = hidden, doors = [],
             state = START, selected_door = None, play_again = None, effects = []\<rparr>"
  from assms obtain ds where ds: "build_door_list ?b p rand activities hidden = Inr ds"
    "b0 = ?b\<lparr>doors := ds\<rparr>"
    by (auto simp: ActivityBoard_init_def Let_def split: if_splits sum.splits)
  have "\<not> length activities < length (py_range 0 (num_doors ?b) 1)"
  proof
    assume "length activities < length (py_range 0 (num_doors ?b) 1)"
    then have "build_door_list ?b p rand activities hidden = Inl IndexError"
      unfolding build_door_list_def by (rule build_door_loop_short)
    with ds(1) show False by simp
  qed
  then have "length (py_range 0 (num_doors ?b) 1) \<le> length activities" by simp
  from build_door_loop_enough[OF this, of ?b p rand hidden] ds(1)
  have i: "map index ds = map int [0..<nat (num_doors ?b)]"
    and f: "\<forall>d \<in> set ds. \<not> is_selected d \<and> is_hidden d = hidden"
    unfolding build_door_list_def py_range_0_1 by auto
  from i have len: "length ds = nat (num_doors ?b)"
    by (metis length_map length_upt minus_nat.diff_0)
  have idx: "index (ds ! j) = int j" if "j < length ds" for j
  proof -
    have "index (ds ! j) = map index ds ! j" using that by simp
    also have "\<dots> = int j" unfolding i using that len by simp
    finally show ?thesis .
  qed
  show ?thesis
    unfolding ds(2) using len idx f
    by (auto simp: board_inv_def grid_doors_def num_doors_def)
qed

lemma cursor_at_one_selected:
  assumes "cursor_at ds k"
  shows "filter is_selected ds = [ds ! k]"
proof -
  have k: "k < length ds" and sel: "\<And>i. i < length ds \<Longrightarrow> is_selected (ds ! i) = (i = k)"
    using assms by (simp_all add: cursor_at_def)
  have "filter is_selected (take k ds) = []"
    unfolding filter_empty_conv using k sel by (auto simp: in_set_conv_nth)
  moreover have "filter is_selected (drop (Suc k) ds) = []"
    unfolding filter_empty_conv using k sel by (auto simp: in_set_conv_nth)
  moreover have "is_selected (ds ! k)" using k sel by simp
  moreover have "ds = take k ds @ ds ! k # drop (Suc k) ds"
    using k by (rule id_take_nth_drop)
  ultimately show ?thesis by (metis append_Nil filter.simps(2) filter_append)
qed

text \<open>A directional event on a board that satisfies the invariant: the selection is at
  the index \<^verbatim>\<open>_get_new_selection\<close> returned, on that door only.\<close>

lemma SELECTING_event_directional:
  assumes "board_inv b" and "state b \<noteq> START" and "selected_door b = Some k"
    and "directional a"
  shows "\<exists>b'. SELECTING_event b (Some a) = Inr b' \<and>
           selected_door b' = Some (nat (get_new_selection b (doors b ! k) a)) \<and>
           cursor_at (doors b') (nat (get_new_selection b (doors b ! k) a))"
proof -
  from assms(1,2,3) have c: "cursor_at (doors b) k"
    by (auto simp: board_inv_def)
  note g = selection_in_grid[OF assms(1) c]
  show ?thesis
  proof (cases "get_new_selection b (doors b ! k) a = index (doors b ! k)")
    case True
    then have "nat (get_new_selection b (doors b ! k) a) = k" using g(3) by simp
    with c assms(3) show ?thesis
      unfolding SELECTING_event_stay[OF assms(4,3) True] by (simp add: event_clear_def)
  next
    case False
    let ?j = "nat (get_new_selection b (doors b ! k) a)"
    let ?ds1 = "(doors b)[k := (doors b ! k)\<lparr>is_selected := False, is_updated := True\<rparr>]"
    let ?ds2 = "?ds1[?j := (?ds1 ! ?j)\<lparr>is_selected := True, is_updated := True\<rparr>]"
    let ?b1 = "play_random_sound Move_Sound (b\<lparr>doors := ?ds2, selected_door := Some ?j\<rparr>)"
    have j: "?j < length (doors b)" "?j \<noteq> k"
      using g(1)[of a] g(2)[of a] g(3) False by simp_all
    have "cursor_at (doors ?b1) ?j"
      using move_cursor(1)[OF c j] by (simp add: play_random_sound_def)
    with redrawn_draw_updated_doors[of ?b1]
    have "cursor_at (doors (draw_updated_doors ?b1)) ?j" by (rule redrawn_cursor_at)
    moreover have "selected_door (draw_updated_doors ?b1) = Some ?j"
      by (simp add: draw_updated_doors_def play_random_sound_def)
    ultimately show ?thesis
      unfolding SELECTING_event_move[OF assms(4,3) False g(1,2)] Let_def
      by (simp add: event_clear_def)
  qed
qed

text \<open>
  C2. In every state that the loop of \<^verbatim>\<open>run\<close> reaches on a freshly constructed board
  and that is \<^verbatim>\<open>SELECTING\<close>, \<^verbatim>\<open>IN_PROGRESS\<close> or \<^verbatim>\<open>ALL_REVEALED\<close>, exactly one
  door of the door list is selected, the door \<open>selected_door\<close> refers to; and a
  directional event handled in that state leaves exactly one door selected, the one at
  the index \<^verbatim>\<open>_get_new_selection\<close> returned: the old flag is cleared, the new one set.
\<close>

theorem exactly_one_door_selected:
  assumes "ActivityBoard_init w h dh dv p activities rand hidden disp = Inr b0"
    and "run n rand' queue b0 = Running b"
    and "state b \<in> {SELECTING, IN_PROGRESS, ALL_REVEALED}"
  shows "length (filter is_selected (doors b)) = 1 \<and>
         (\<exists>k. selected_door b = Some k \<and> k < length (doors b) \<and>
            (\<forall>i < length (doors b). is_selected (doors b ! i) = (i = k)) \<and>
            (\<forall>a. directional a \<longrightarrow>
               (\<exists>b'. SELECTING_event b (Some a) = Inr b' \<and>
                  selected_door b' = Some (nat (get_new_selection b (doors b ! k) a)) \<and>
                  length (filter is_selected (doors b')) = 1 \<and>
                  (\<forall>i < length (doors b').
                     is_selected (doors b' ! i)
                       = (i = nat (get_new_selection b (doors b ! k) a))))))"
proof -
  from assms(2) have "run_loop n rand' queue
      (b0\<lparr>state := START, selected_door := None, play_again := None\<rparr>) = Running b"
    by (simp add: run_def)
  with ActivityBoard_init_inv[OF assms(1)] have inv: "board_inv b" by (rule run_loop_inv)
  from assms(3) have st: "state b \<noteq> START" by auto
  from inv st obtain k where k: "selected_door b = Some k" "cursor_at (doors b) k"
    "k < length (doors b)"
    by (rule board_inv_cursor)
  have one: "length (filter is_selected ds) = 1" if "cursor_at ds j" for ds j
    using cursor_at_one_selected[OF that] by simp
  have move: "\<exists>b'. SELECTING_event b (Some a) = Inr b' \<and>
                  selected_door b' = Some (nat (get_new_selection b (doors b ! k) a)) \<and>
                  length (filter is_selected (doors b')) = 1 \<and>
                  (\<forall>i < length (doors b').
                     is_selected (doors b' ! i)
                       = (i = nat (get_new_selection b (doors b ! k) a)))"
    if "directional a" for a
  proof -
    from SELECTING_event_directional[OF inv st k(1) that] obtain b' where b':
      "SELECTING_event b (Some a) = Inr b'"
      "selected_door b' = Some (nat (get_new_selection b (doors b ! k) a))"
      "cursor_at (doors b') (nat (get_new_selection b (doors b ! k) a))"
      by blast
    from b'(3) one[OF b'(3)] b'(1,2) show ?thesis by (auto simp: cursor_at_def)
  qed
  from k(2) have "\<forall>i < length (doors b). is_selected (doors b ! i) = (i = k)"
    by (simp add: cursor_at_def)
  with one[OF k(2)] k(1,3) move show ?thesis by blast
qed

text \<open>After \<^verbatim>\<open>_animate_open_all\<close> a door that is not hidden shows its activity, in the
  activity colour when it had been opened and in the unused colour otherwise.\<close>

lemma animate_open_all_surface:
  assumes "i < length (doors b)" and "\<not> is_hidden (doors b ! i)"
  shows "is_revealed (doors (animate_open_all b) ! i) \<and>
         get_door_surface (doors (animate_open_all b) ! i)
           = Revealed_Text (if is_open (doors b ! i) then activity_color (props (doors b ! i))
                            else unused_color (props (doors b ! i)))
                           (activity (doors b ! i))"
proof -
  from animate_open_all_revealed[of b] have r: "redrawn b (animate_open_all b)"
    and v: "\<forall>d \<in> set (doors (animate_open_all b)). is_revealed d"
    by simp_all
  from assms(1) redrawn_length[OF r] have "doors (animate_open_all b) ! i \<in> set (doors (animate_open_all b))"
    by simp
  with v have "is_revealed (doors (animate_open_all b) ! i)" by blast
  with redrawn_nth[OF r assms(1)] assms(2) show ?thesis
    by (auto simp: kept_def get_door_surface_def)
qed

text \<open>
  C4. In every \<^verbatim>\<open>SELECTING\<close> state that the loop of \<^verbatim>\<open>run\<close> reaches on a freshly
  constructed board, where the Reveal action is handled, \<^verbatim>\<open>_animate_open_all\<close> leaves
  every door revealed, and \<^verbatim>\<open>get_door_surface\<close> then renders the activity text of each
  door in the activity colour when the door was open at the time of the reveal and in the
  unused colour when it was not.
\<close>

theorem reveal_all_renders_by_open_flag:
  assumes "ActivityBoard_init w h dh dv p activities rand hidden disp = Inr b0"
    and "run n rand' queue b0 = Running b"
    and "state b = SELECTING"
  shows "length (doors (animate_open_all b)) = length (doors b) \<and>
         (\<forall>i < length (doors b).
            is_revealed (doors (animate_open_all b) ! i) \<and>
            get_door_surface (doors (animate_open_all b) ! i)
              = Revealed_Text (if is_open (doors b ! i) then activity_color (props (doors b ! i))
                               else unused_color (props (doors b ! i)))
                              (activity (doors b ! i)))"
proof -
  from assms(2) have "run_loop n rand' queue
      (b0\<lparr>state := START, selected_door := None, play_again := None\<rparr>) = Running b"
    by (simp add: run_def)
  with ActivityBoard_init_inv[OF assms(1)] have inv: "board_inv b" by (rule run_loop_inv)
  with assms(3) have "\<forall>d \<in> set (doors b). \<not> is_hidden d" by (simp add: board_inv_def)
  then have "\<not> is_hidden (doors b ! i)" if "i < length (doors b)" for i
    using that by simp
  then show ?thesis
    using animate_open_all_revealed[of b] animate_open_all_surface[of _ b]
    by (simp add: redrawn_length)
qed



section \<open>The run loop on the sample board\<close>

theorem exactly_one_door_selected_witness:
  "ActivityBoard_init 600 400 3 2 sample_props sample_activities first_choice False True
     = Inr sample_board \<and>
   (\<exists>b. run 3 first_choice [[Some RIGHT], [Some DOWN]] sample_board = Running b \<and>
        state b = SELECTING \<and> selected_door b = Some 4 \<and>
        length (filter is_selected (doors b)) = 1)"
proof -
  have c: "ActivityBoard_init 600 400 3 2 sample_props sample_activities first_choice False True
     = Inr sample_board"
    by code_simp
  have "case run 3 first_choice [[Some RIGHT], [Some DOWN]] sample_board of
          Running b \<Rightarrow> state b = SELECTING \<and> selected_door b = Some 4 | _ \<Rightarrow> False"
    by code_simp
  then obtain b where b: "run 3 first_choice [[Some RIGHT], [Some DOWN]] sample_board = Running b"
    "state b = SELECTING" "selected_door b = Some 4"
    by (auto split: run_result.splits)
  from exactly_one_door_selected[OF c b(1)] b(2)
  have "length (filter is_selected (doors b)) = 1" by simp
  with c b show ?thesis by blast
qed

theorem reveal_all_renders_by_open_flag_witness:
  "ActivityBoard_init 600 400 3 2 sample_props sample_activities first_choice False True
     = Inr sample_board \<and>
   (\<exists>b. run 5 first_choice [[Some RIGHT], [Some RIGHT], [Some OPEN], [Some RETURN]] sample_board
          = Running b \<and>
        state b = SELECTING \<and>
        map is_open (doors b) = [False, False, True, False, False, False] \<and>
        get_door_surface (doors (animate_open_all b) ! 0) = Revealed_Text ''gray'' ''a'' \<and>
        get_door_surface (doors (animate_open_all b) ! 1) = Revealed_Text ''gray'' ''b'' \<and>
        get_door_surface (doors (animate_open_all b) ! 2) = Revealed_Text ''green'' ''c'' \<and>
        get_door_surface (doors (animate_open_all b) ! 3) = Revealed_Text ''gray'' ''d'' \<and>
        get_door_surface (doors (animate_open_all b) ! 4) = Revealed_Text ''gray'' ''e'' \<and>
        get_door_surface (doors (animate_open_all b) ! 5) = Revealed_Text ''gray'' ''f'')"
proof -
  have c: "ActivityBoard_init 600 400 3 2 sample_props sample_activities first_choice False True
     = Inr sample_board"
    by code_simp
  have "case run 5 first_choice [[Some RIGHT], [Some RIGHT], [Some OPEN], [Some RETURN]] sample_board of
          Running b \<Rightarrow>
            state b = SELECTING \<and>
            map is_open (doors b) = [False, False, True, False, False, False] \<and>
            map activity (doors b) = [''a'', ''b'', ''c'', ''d'', ''e'', ''f''] \<and>
            map (activity_color \<circ> props) (doors b)
              = [''green'', ''green'', ''green'', ''green'', ''green'', ''green''] \<and>
            map (unused_color \<circ> props) (doors b)
              = [''gray'', ''gray'', ''gray'', ''gray'', ''gray'', ''gray'']
        | _ \<Rightarrow> False"
    by code_simp
  then obtain b where b:
    "run 5 first_choice [[Some RIGHT], [Some RIGHT], [Some OPEN], [Some RETURN]] sample_board
       = Running b"
    "state b = SELECTING"
    "map is_open (doors b) = [False, False, True, False, False, False]"
    "map activity (doors b) = [''a'', ''b'', ''c'', ''d'', ''e'', ''f'']"
    "map (activity_color \<circ> props) (doors b)
       = [''green'', ''green'', ''green'', ''green'', ''green'', ''green'']"
    "map (unused_color \<circ> props) (doors b)
       = [''gray'', ''gray'', ''gray'', ''gray'', ''gray'', ''gray'']"
    by (cases "run 5 first_choice [[Some RIGHT], [Some RIGHT], [Some OPEN], [Some RETURN]] sample_board")
      simp_all
  have "length (map is_open (doors b)) = 6" unfolding b(3) by simp
  then have len: "length (doors b) = 6" by simp
  have o: "is_open (doors b ! i) = [False, False, True, False, False, False] ! i"
    if "i < 6" for i
  proof -
    have "map is_open (doors b) ! i = is_open (doors b ! i)" using that len by simp
    then show ?thesis unfolding b(3) by simp
  qed
  have a: "activity (doors b ! i) = [''a'', ''b'', ''c'', ''d'', ''e'', ''f''] ! i"
    if "i < 6" for i
  proof -
    have "map activity (doors b) ! i = activity (doors b ! i)" using that len by simp
    then show ?thesis unfolding b(4) by simp
  qed
  have g: "activity_color (props (doors b ! i))
             = [''green'', ''green'', ''green'', ''green'', ''green'', ''green''] ! i"
    if "i < 6" for i
  proof -
    have "map (activity_color \<circ> props) (doors b) ! i = activity_color (props (doors b ! i))"
      using that len by simp
    then show ?thesis unfolding b(5) by simp
  qed
  have u: "unused_color (props (doors b ! i))
             = [''gray'', ''gray'', ''gray'', ''gray'', ''gray'', ''gray''] ! i"
    if "i < 6" for i
  proof -
    have "map (unused_color \<circ> props) (doors b) ! i = unused_color (props (doors b ! i))"
      using that len by simp
    then show ?thesis unfolding b(6) by simp
  qed
  from reveal_all_renders_by_open_flag[OF c b(1,2)]
  have t: "get_door_surface (doors (animate_open_all b) ! i)
              = Revealed_Text (if is_open (doors b ! i) then activity_color (props (doors b ! i))
                               else unused_color (props (doors b ! i)))
                              (activity (doors b ! i))" if "i < 6" for i
    using that len by simp
  have s0: "get_door_surface (doors (animate_open_all b) ! 0) = Revealed_Text ''gray'' ''a''"
    using t[of 0] o[of 0] a[of 0] u[of 0] by simp
  have s1: "get_door_surface (doors (animate_open_all b) ! 1) = Revealed_Text ''gray'' ''b''"
    using t[of 1] o[of 1] a[of 1] u[of 1] by simp
  have s2: "get_door_surface (doors (animate_open_all b) ! 2) = Revealed_Text ''green'' ''c''"
    using t[of 2] o[of 2] a[of 2] g[of 2] by simp
  have s3: "get_door_surface (doors (animate_open_all b) ! 3) = Revealed_Text ''gray'' ''d''"
    using t[of 3] o[of 3] a[of 3] u[of 3] by simp
  have s4: "get_door_surface (doors (animate_open_all b) ! 4) = Revealed_Text ''gray'' ''e''"
    using t[of 4] o[of 4] a[of 4] u[of 4] by simp
  have s5: "get_door_surface (doors (animate_open_all b) ! 5) = Revealed_Text ''gray'' ''f''"
    using t[of 5] o[of 5] a[of 5] u[of 5] by simp
  show ?thesis
    by (intro conjI exI[of _ b]) (fact c b(1,2,3) s0 s1 s2 s3 s4 s5)+
qed


section \<open>Opening a door\<close>





section \<open>Restart and Quit\<close>

text \<open>With no event in the queue a pass of the loop changes nothing.\<close>

lemma run_events_empty: "run_events b [] = Inr b"
  by (cases "state b") (simp_all add: run_events_def)

lemma run_loop_idle:
  assumes "state b \<noteq> GAME_OVER" and "state b \<noteq> START"
  shows "run_loop n rand [] b = Running b"
  using assms by (induction n) (simp_all add: run_events_empty)

text \<open>A Restart or Quit that is the only event of its list ends the run.\<close>

lemma restart_alone_returns_true:
  assumes "state b = SELECTING"
  shows "run_loop (Suc (Suc n)) rand ([Some RESTART] # queue) b = Returned True"
  using assms by (simp add: run_events_def SELECTING_event_RESTART event_clear_def)

lemma quit_alone_returns_false:
  assumes "state b = SELECTING"
  shows "run_loop (Suc (Suc n)) rand ([Some QUIT] # queue) b = Returned False"
  using assms by (simp add: run_events_def SELECTING_event_QUIT event_clear_def)

text \<open>
  C8 fails on the code when the list that \<^verbatim>\<open>pygame.event.get()\<close> returned holds
  another action after Restart: the \<^verbatim>\<open>for\<close> loop of the \<^verbatim>\<open>SELECTING\<close> branch goes on
  through the list after the state became \<^verbatim>\<open>GAME_OVER\<close>. On the sample board, with
  Restart then Open in one list, the Open is handled, the state is \<^verbatim>\<open>IN_PROGRESS\<close>
  at the next test of the \<^verbatim>\<open>while\<close> condition, and \<^verbatim>\<open>run\<close> does not return however
  many passes follow without input; with Restart then Quit in one list \<^verbatim>\<open>run\<close>
  returns \<^verbatim>\<open>False\<close>.
\<close>

theorem restart_then_open_keeps_running:
  "(\<forall>n. \<exists>b. run (n + 2) first_choice [[Some RESTART, Some OPEN]] sample_board = Running b \<and>
            state b = IN_PROGRESS \<and> play_again b = Some True) \<and>
   run 3 first_choice [[Some RESTART, Some QUIT]] sample_board = Returned False"
proof -
  let ?b0 = "sample_board\<lparr>state := START, selected_door := None, play_again := None\<rparr>"
  have "case START_branch first_choice ?b0 of
          Inr b1 \<Rightarrow>
            state b1 = SELECTING \<and>
            (case run_events b1 [Some RESTART, Some OPEN] of
               Inr b2 \<Rightarrow> state b2 = IN_PROGRESS \<and> play_again b2 = Some True
             | Inl e \<Rightarrow> False)
        | Inl e \<Rightarrow> False"
    by code_simp
  then obtain b1 b2 where b1: "START_branch first_choice ?b0 = Inr b1" "state b1 = SELECTING"
    and b2: "run_events b1 [Some RESTART, Some OPEN] = Inr b2" "state b2 = IN_PROGRESS"
      "play_again b2 = Some True"
    by (auto split: sum.splits)
  have "run (n + 2) first_choice [[Some RESTART, Some OPEN]] sample_board = Running b2" for n
  proof -
    have "run (n + 2) first_choice [[Some RESTART, Some OPEN]] sample_board
            = run_loop (Suc (Suc n)) first_choice [[Some RESTART, Some OPEN]] ?b0"
      by (simp add: run_def)
    also have "\<dots> = run_loop (Suc n) first_choice [[Some RESTART, Some OPEN]] b1"
      using b1(1) by simp
    also have "\<dots> = run_loop n first_choice [] b2"
      using b1(2) b2(1) by simp
    also have "\<dots> = Running b2"
      using b2(2) by (intro run_loop_idle) simp_all
    finally show ?thesis .
  qed
  then have 1: "\<forall>n. \<exists>b. run (n + 2) first_choice [[Some RESTART, Some OPEN]] sample_board
                   = Running b \<and> state b = IN_PROGRESS \<and> play_again b = Some True"
    using b2(2,3) by (intro allI exI[of _ b2]) simp
  have 2: "run 3 first_choice [[Some RESTART, Some QUIT]] sample_board = Returned False"
    by code_simp
  from 1 2 show ?thesis ..
qed


end
